theory Spec2Isabelle
  imports Complex_Main "HOL-Library.Multiset" "HOL-Library.Log_Nat"
begin

section \<open>Vectors\<close>

text \<open>
  \<^verbatim>\<open>glm::vec3\<close> and \<^verbatim>\<open>glm::ivec3\<close>. A \<^verbatim>\<open>float\<close> is read as a real number. The
  sums, products and square roots of the rules, of the clamp and of the position update
  are exact. The cell of a position is the one place where a rounding error decides
  which boids a kernel looks at, so the two operations that compute it are rounded to
  binary32 (section \<open>Uniform grid\<close>).
  An \<^verbatim>\<open>int\<close> is read as an integer; all integers of the kernels are array indices
  and cell coordinates far below \<open>2^31\<close>.
\<close>

datatype vec3 = Vec3 (vx: real) (vy: real) (vz: real)

datatype ivec3 = IVec3 (ix: int) (iy: int) (iz: int)

instantiation vec3 :: ab_group_add
begin

definition zero_vec3 :: vec3 where
  "zero_vec3 = Vec3 0 0 0"

definition plus_vec3 :: "vec3 \<Rightarrow> vec3 \<Rightarrow> vec3" where
  "plus_vec3 a b = Vec3 (vx a + vx b) (vy a + vy b) (vz a + vz b)"

definition minus_vec3 :: "vec3 \<Rightarrow> vec3 \<Rightarrow> vec3" where
  "minus_vec3 a b = Vec3 (vx a - vx b) (vy a - vy b) (vz a - vz b)"

definition uminus_vec3 :: "vec3 \<Rightarrow> vec3" where
  "uminus_vec3 a = Vec3 (- vx a) (- vy a) (- vz a)"

instance
  by standard (simp_all add: zero_vec3_def plus_vec3_def minus_vec3_def uminus_vec3_def)

end

text \<open>\<^verbatim>\<open>v * s\<close> and \<^verbatim>\<open>v /= n\<close> (the \<^verbatim>\<open>int\<close> count \<open>n\<close> is converted to \<^verbatim>\<open>float\<close>).\<close>

definition vscale :: "vec3 \<Rightarrow> real \<Rightarrow> vec3" where
  "vscale v s = Vec3 (vx v * s) (vy v * s) (vz v * s)"

definition vdivide :: "vec3 \<Rightarrow> int \<Rightarrow> vec3" where
  "vdivide v n = Vec3 (vx v / of_int n) (vy v / of_int n) (vz v / of_int n)"

definition glm_dot :: "vec3 \<Rightarrow> vec3 \<Rightarrow> real" where
  "glm_dot a b = vx a * vx b + vy a * vy b + vz a * vz b"

definition glm_length :: "vec3 \<Rightarrow> real" where
  "glm_length v = sqrt (glm_dot v v)"

definition glm_distance :: "vec3 \<Rightarrow> vec3 \<Rightarrow> real" where
  "glm_distance p0 p1 = glm_length (p1 - p0)"

definition glm_normalize :: "vec3 \<Rightarrow> vec3" where
  "glm_normalize v = vscale v (1 / sqrt (glm_dot v v))"

definition glm_floor :: "vec3 \<Rightarrow> vec3" where
  "glm_floor v = Vec3 (of_int \<lfloor>vx v\<rfloor>) (of_int \<lfloor>vy v\<rfloor>) (of_int \<lfloor>vz v\<rfloor>)"

text \<open>\<^verbatim>\<open>round\<close> of C: to the nearest integer, halves away from zero.\<close>

definition c_round :: "real \<Rightarrow> real" where
  "c_round x = (if x < 0 then of_int \<lceil>x - 1 / 2\<rceil> else of_int \<lfloor>x + 1 / 2\<rfloor>)"

definition glm_round :: "vec3 \<Rightarrow> vec3" where
  "glm_round v = Vec3 (c_round (vx v)) (c_round (vy v)) (c_round (vz v))"

text \<open>\<^verbatim>\<open>static_cast<int>\<close> of a \<^verbatim>\<open>float\<close> truncates toward zero.\<close>

definition c_int_cast :: "real \<Rightarrow> int" where
  "c_int_cast x = (if x < 0 then \<lceil>x\<rceil> else \<lfloor>x\<rfloor>)"

definition to_ivec3 :: "vec3 \<Rightarrow> ivec3" where
  "to_ivec3 v = IVec3 (c_int_cast (vx v)) (c_int_cast (vy v)) (c_int_cast (vz v))"

section \<open>Rounding to binary32\<close>

text \<open>
  The value of a \<^verbatim>\<open>float\<close> operation is the exact result rounded to the nearest number
  with a significand of 24 bits, a tie going to the even significand. For a nonzero \<open>x\<close>
  with \<open>2^e \<le> |x| < 2^(e+1)\<close> these numbers are the multiples of \<open>2^(e-23)\<close>. The range of
  the exponent is not bounded here: no overflow and no subnormal numbers, which the
  coordinates of a grid of 22 cells of width 10 are far from.
\<close>

definition round_ties_even :: "real \<Rightarrow> int" where
  "round_ties_even x =
     (let f = \<lfloor>x\<rfloor>; r = x - of_int f
      in if r < 1 / 2 then f else if 1 / 2 < r then f + 1 else if even f then f else f + 1)"

text \<open>The exponent \<open>e\<close> with \<open>2^e \<le> |x| < 2^(e+1)\<close>.\<close>

definition binade :: "real \<Rightarrow> int" where
  "binade x = (if 1 \<le> \<bar>x\<bar> then bitlen \<lfloor>\<bar>x\<bar>\<rfloor> - 1 else - bitlen (\<lceil>1 / \<bar>x\<bar>\<rceil> - 1))"

definition float32 :: "real \<Rightarrow> real" where
  "float32 x =
     (if x = 0 then 0
      else (let ulp = power_int 2 (binade x - 23)
            in of_int (round_ties_even (x / ulp)) * ulp))"

text \<open>\<^verbatim>\<open>a - b\<close> and \<^verbatim>\<open>v * s\<close> on \<^verbatim>\<open>glm::vec3\<close>, each component rounded.\<close>

definition vminus32 :: "vec3 \<Rightarrow> vec3 \<Rightarrow> vec3" where
  "vminus32 a b = Vec3 (float32 (vx a - vx b)) (float32 (vy a - vy b)) (float32 (vz a - vz b))"

definition vscale32 :: "vec3 \<Rightarrow> real \<Rightarrow> vec3" where
  "vscale32 v s = Vec3 (float32 (vx v * s)) (float32 (vy v * s)) (float32 (vz v * s))"

section \<open>Configuration\<close>

definition blockSize :: nat where "blockSize = 1024"

definition rule1Distance :: real where "rule1Distance = 5"
definition rule2Distance :: real where "rule2Distance = 3"
definition rule3Distance :: real where "rule3Distance = 5"

definition rule1Scale :: real where "rule1Scale = 1 / 100"
definition rule2Scale :: real where "rule2Scale = 1 / 10"
definition rule3Scale :: real where "rule3Scale = 1 / 10"

definition maxSpeed :: real where "maxSpeed = 1"

definition scene_scale :: real where "scene_scale = 100"

section \<open>Kernel launches and array accesses\<close>

text \<open>
  A launch \<^verbatim>\<open>kern<<<blocks, blockSize>>>(...)\<close> runs one thread for every index below
  \<open>blocks * blockSize\<close>; the threads are run here in the order of their indices. Every
  kernel guards its body with \<^verbatim>\<open>index < N\<close>.
\<close>

datatype error = OutOfBounds

definition bindE :: "error + 'a \<Rightarrow> ('a \<Rightarrow> error + 'b) \<Rightarrow> error + 'b" where
  "bindE m f = (case m of Inl e \<Rightarrow> Inl e | Inr x \<Rightarrow> f x)"

fun foldE :: "('b \<Rightarrow> 'a \<Rightarrow> error + 'a) \<Rightarrow> 'b list \<Rightarrow> 'a \<Rightarrow> error + 'a" where
  "foldE f [] a = Inr a"
| "foldE f (x # xs) a = bindE (f x a) (foldE f xs)"

definition fullBlocksPerGrid :: "nat \<Rightarrow> nat" where
  "fullBlocksPerGrid N = (N + blockSize - 1) div blockSize"

definition launch :: "nat \<Rightarrow> (nat \<Rightarrow> 's \<Rightarrow> 's) \<Rightarrow> 's \<Rightarrow> 's" where
  "launch blocks thread s = fold thread [0..<blocks * blockSize] s"

definition launchE :: "nat \<Rightarrow> (nat \<Rightarrow> 's \<Rightarrow> error + 's) \<Rightarrow> 's \<Rightarrow> error + 's" where
  "launchE blocks thread s = foldE thread [0..<blocks * blockSize] s"

text \<open>
  A read or a write at an index that comes from data (a cell id, an entry of the cell
  table, an entry of the index array) is checked: outside the array the kernel's
  behaviour is undefined, which is the outcome \<open>Inl OutOfBounds\<close>.
\<close>

definition readAt :: "'a list \<Rightarrow> int \<Rightarrow> error + 'a" where
  "readAt xs i = (if 0 \<le> i \<and> i < int (length xs) then Inr (xs ! nat i) else Inl OutOfBounds)"

definition writeAt :: "'a list \<Rightarrow> int \<Rightarrow> 'a \<Rightarrow> error + 'a list" where
  "writeAt xs i v = (if 0 \<le> i \<and> i < int (length xs) then Inr (xs[nat i := v]) else Inl OutOfBounds)"

section \<open>Brute-force velocity update\<close>

text \<open>
  The three loops of \<^verbatim>\<open>computeVelocityChange\<close> over all \<open>N\<close> boids: the sum of the
  positions within \<open>rule1Distance\<close> and their number, the separation accumulator, the sum
  of the velocities within \<open>rule3Distance\<close> and their number.
\<close>

definition naiveRule1 :: "nat \<Rightarrow> nat \<Rightarrow> vec3 list \<Rightarrow> vec3 \<times> int" where
  "naiveRule1 N iSelf pos =
     fold (\<lambda>i (perceived_center, n).
             if i \<noteq> iSelf \<and> glm_distance (pos ! i) (pos ! iSelf) < rule1Distance
             then (perceived_center + pos ! i, n + 1) else (perceived_center, n))
       [0..<N] (0, 0)"

definition naiveRule2 :: "nat \<Rightarrow> nat \<Rightarrow> vec3 list \<Rightarrow> vec3" where
  "naiveRule2 N iSelf pos =
     fold (\<lambda>i center.
             if i \<noteq> iSelf \<and> glm_distance (pos ! i) (pos ! iSelf) < rule2Distance
             then center - (pos ! i - pos ! iSelf) else center)
       [0..<N] 0"

definition naiveRule3 :: "nat \<Rightarrow> nat \<Rightarrow> vec3 list \<Rightarrow> vec3 list \<Rightarrow> vec3 \<times> int" where
  "naiveRule3 N iSelf pos vel =
     fold (\<lambda>i (perceived_vel, n).
             if i \<noteq> iSelf \<and> glm_distance (pos ! i) (pos ! iSelf) < rule3Distance
             then (perceived_vel + vel ! i, n + 1) else (perceived_vel, n))
       [0..<N] (0, 0)"

text \<open>The average of an accumulated sum: divided by the count only when it is positive.\<close>

definition averaged :: "vec3 \<times> int \<Rightarrow> vec3" where
  "averaged a = (case a of (s, n) \<Rightarrow> if n > 0 then vdivide s n else s)"

text \<open>What each rule adds to the velocity, given the result of its loop.\<close>

definition rule1Term :: "vec3 \<times> int \<Rightarrow> vec3 \<Rightarrow> vec3" where
  "rule1Term acc self_pos = vscale (averaged acc - self_pos) rule1Scale"

definition rule2Term :: "vec3 \<Rightarrow> vec3" where
  "rule2Term center = vscale center rule2Scale"

definition rule3Term :: "vec3 \<times> int \<Rightarrow> vec3" where
  "rule3Term acc = vscale (averaged acc) rule3Scale"

definition computeVelocityChange :: "nat \<Rightarrow> nat \<Rightarrow> vec3 list \<Rightarrow> vec3 list \<Rightarrow> vec3" where
  "computeVelocityChange N iSelf pos vel =
     (let self_pos = pos ! iSelf;
          self_vel = vel ! iSelf;
          new_vel = self_vel;
          new_vel = new_vel + rule1Term (naiveRule1 N iSelf pos) self_pos;
          new_vel = new_vel + rule2Term (naiveRule2 N iSelf pos);
          new_vel = new_vel + rule3Term (naiveRule3 N iSelf pos vel)
      in new_vel)"

text \<open>The speed clamp of \<^verbatim>\<open>kernUpdateVelocityBruteForce\<close>.\<close>

definition clampNaive :: "vec3 \<Rightarrow> vec3" where
  "clampNaive new_vel_raw =
     (if glm_length new_vel_raw \<le> maxSpeed then new_vel_raw
      else vscale (glm_normalize new_vel_raw) maxSpeed)"

definition kernUpdateVelocityBruteForce ::
  "nat \<Rightarrow> vec3 list \<Rightarrow> vec3 list \<Rightarrow> nat \<Rightarrow> vec3 list \<Rightarrow> vec3 list" where
  "kernUpdateVelocityBruteForce N pos vel1 idx vel2 =
     (if idx < N then vel2[idx := clampNaive (computeVelocityChange N idx pos vel1)]
      else vel2)"

section \<open>Position update\<close>

definition wrapLow :: "real \<Rightarrow> real" where
  "wrapLow c = (if c < - scene_scale then scene_scale else c)"

definition wrapHigh :: "real \<Rightarrow> real" where
  "wrapHigh c = (if c > scene_scale then - scene_scale else c)"

definition updatePos :: "real \<Rightarrow> vec3 \<Rightarrow> vec3 \<Rightarrow> vec3" where
  "updatePos dt p v =
     (let thisPos = p + vscale v dt;
          thisPos = Vec3 (wrapLow (vx thisPos)) (wrapLow (vy thisPos)) (wrapLow (vz thisPos));
          thisPos = Vec3 (wrapHigh (vx thisPos)) (wrapHigh (vy thisPos)) (wrapHigh (vz thisPos))
      in thisPos)"

definition kernUpdatePos :: "nat \<Rightarrow> real \<Rightarrow> vec3 list \<Rightarrow> nat \<Rightarrow> vec3 list \<Rightarrow> vec3 list" where
  "kernUpdatePos N dt vel index pos =
     (if index \<ge> N then pos else pos[index := updatePos dt (pos ! index) (vel ! index)])"

section \<open>Uniform grid\<close>

text \<open>
  The grid parameters are globals that \<^verbatim>\<open>Boids::initSimulation\<close> computes once from the
  configuration; \<^verbatim>\<open>gridMinimum\<close> is the zero vector of static storage, from which the
  half grid width is subtracted. The cell width 10, the quotient 10 and the half width
  110 are binary32 numbers, so these operations are exact; \<^verbatim>\<open>1.0f / gridCellWidth\<close> is
  not, and is rounded.
\<close>

definition gridCellWidth :: real where
  "gridCellWidth = 2 * max (max rule1Distance rule2Distance) rule3Distance"

definition halfSideCount :: int where
  "halfSideCount = c_int_cast (scene_scale / gridCellWidth) + 1"

definition gridSideCount :: int where
  "gridSideCount = 2 * halfSideCount"

definition gridCellCount :: int where
  "gridCellCount = gridSideCount * gridSideCount * gridSideCount"

definition gridInverseCellWidth :: real where
  "gridInverseCellWidth = float32 (1 / gridCellWidth)"

definition halfGridWidth :: real where
  "halfGridWidth = gridCellWidth * of_int halfSideCount"

definition gridMinimum :: vec3 where
  "gridMinimum = Vec3 (0 - halfGridWidth) (0 - halfGridWidth) (0 - halfGridWidth)"

definition gridIndex3Dto1D :: "int \<Rightarrow> int \<Rightarrow> int \<Rightarrow> int \<Rightarrow> int" where
  "gridIndex3Dto1D x y z gridResolution =
     x + y * gridResolution + z * gridResolution * gridResolution"

text \<open>
  \<^verbatim>\<open>(pos - gridMin) * inverseCellWidth\<close> is computed in \<^verbatim>\<open>float\<close>: the difference is
  rounded, and then the product. A position within that rounding of a cell boundary is
  put into the next cell.
\<close>

definition gridIndex3D :: "vec3 \<Rightarrow> vec3 \<Rightarrow> real \<Rightarrow> ivec3" where
  "gridIndex3D pos gridMin inverseCellWidth =
     to_ivec3 (glm_floor (vscale32 (vminus32 pos gridMin) inverseCellWidth))"

definition gridIndex1D :: "vec3 \<Rightarrow> vec3 \<Rightarrow> real \<Rightarrow> int \<Rightarrow> int" where
  "gridIndex1D pos gridMin inverseCellWidth gridResolution =
     (let pos_in_grid = gridIndex3D pos gridMin inverseCellWidth
      in gridIndex3Dto1D (ix pos_in_grid) (iy pos_in_grid) (iz pos_in_grid) gridResolution)"

definition kernComputeIndices ::
  "nat \<Rightarrow> int \<Rightarrow> vec3 \<Rightarrow> real \<Rightarrow> vec3 list \<Rightarrow> nat \<Rightarrow> int list \<times> int list
     \<Rightarrow> int list \<times> int list" where
  "kernComputeIndices N gridResolution gridMin inverseCellWidth pos idx bufs =
     (case bufs of (indices, gridIndices) \<Rightarrow>
        if idx < N then
          (let boid_pos = pos ! idx;
               boid_gridIdx = gridIndex1D boid_pos gridMin inverseCellWidth gridResolution
           in (indices[idx := int idx], gridIndices[idx := boid_gridIdx]))
        else (indices, gridIndices))"

definition kernResetIntBuffer :: "nat \<Rightarrow> int \<Rightarrow> nat \<Rightarrow> int list \<Rightarrow> int list" where
  "kernResetIntBuffer N v index intBuffer =
     (if index < N then intBuffer[index := v] else intBuffer)"

text \<open>
  \<^verbatim>\<open>kernIdentifyCellStartEnd\<close>: a thread writes the cell table at the cell id it reads
  from the sorted array, so the two writes are checked.
\<close>

definition kernIdentifyCellStartEnd ::
  "nat \<Rightarrow> int list \<Rightarrow> nat \<Rightarrow> int list \<times> int list \<Rightarrow> error + int list \<times> int list" where
  "kernIdentifyCellStartEnd N particleGridIndices idx bufs =
     (case bufs of (gridCellStartIndices, gridCellEndIndices) \<Rightarrow>
        if idx < N then
          (let particleGridIdx = particleGridIndices ! idx;
               prev_particleGridIdx = (if idx > 0 then particleGridIndices ! (idx - 1) else - 1);
               next_particleGridIdx = (if idx < N - 1 then particleGridIndices ! (idx + 1) else - 1)
           in bindE (if idx = 0 \<or> particleGridIdx \<noteq> prev_particleGridIdx
                     then writeAt gridCellStartIndices particleGridIdx (int idx)
                     else Inr gridCellStartIndices)
                (\<lambda>starts.
              bindE (if idx = N - 1 \<or> particleGridIdx \<noteq> next_particleGridIdx
                     then writeAt gridCellEndIndices particleGridIdx (int idx)
                     else Inr gridCellEndIndices)
                (\<lambda>ends. Inr (starts, ends))))
        else Inr (gridCellStartIndices, gridCellEndIndices))"

section \<open>Neighbour cells\<close>

text \<open>
  The cell selection is written twice in the source, word for word, in
  \<^verbatim>\<open>kernUpdateVelNeighborSearchScattered\<close> and \<^verbatim>\<open>kernUpdateVelNeighborSearchCoherent\<close>.
\<close>

definition biasAlongAxes :: "vec3 \<Rightarrow> vec3 \<Rightarrow> real \<Rightarrow> ivec3" where
  "biasAlongAxes boid_pos gridMin inverseCellWidth =
     (let boid_gridPos = gridIndex3D boid_pos gridMin inverseCellWidth;
          boid_gridPosRound =
            to_ivec3 (glm_round (vscale32 (vminus32 boid_pos gridMin) inverseCellWidth))
      in IVec3 (if ix boid_gridPosRound \<noteq> ix boid_gridPos then 1 else - 1)
               (if iy boid_gridPosRound \<noteq> iy boid_gridPos then 1 else - 1)
               (if iz boid_gridPosRound \<noteq> iz boid_gridPos then 1 else - 1))"

text \<open>The values of \<^verbatim>\<open>grid_pos\<close> in the order of the z-y-x loop nest.\<close>

definition candidateGridPos :: "ivec3 \<Rightarrow> ivec3 \<Rightarrow> ivec3 list" where
  "candidateGridPos boid_gridPos bias =
     concat (map (\<lambda>zStep. concat (map (\<lambda>yStep. map (\<lambda>xStep.
         IVec3 (ix boid_gridPos + xStep * ix bias)
               (iy boid_gridPos + yStep * iy bias)
               (iz boid_gridPos + zStep * iz bias))
       [0, 1]) [0, 1])) [0, 1])"

definition candidateCells :: "ivec3 \<Rightarrow> ivec3 \<Rightarrow> int \<Rightarrow> int list" where
  "candidateCells boid_gridPos bias gridResolution =
     map (\<lambda>grid_pos. gridIndex3Dto1D (ix grid_pos) (iy grid_pos) (iz grid_pos) gridResolution)
       (candidateGridPos boid_gridPos bias)"

text \<open>\<^verbatim>\<open>valid_neighbor_idx_list\<close>, filled in loop order; its length is \<^verbatim>\<open>num_valid_neighbors\<close>.\<close>

definition validNeighborCells :: "int list \<Rightarrow> int list \<Rightarrow> error + int list" where
  "validNeighborCells gridCellStartIndices cells =
     foldE (\<lambda>grid_idx valid_neighbor_idx_list.
              bindE (readAt gridCellStartIndices grid_idx)
                (\<lambda>start. Inr (if start \<ge> 0 then valid_neighbor_idx_list @ [grid_idx]
                               else valid_neighbor_idx_list)))
       cells []"

definition neighborCells :: "int \<Rightarrow> vec3 \<Rightarrow> real \<Rightarrow> int list \<Rightarrow> vec3 \<Rightarrow> error + int list" where
  "neighborCells gridResolution gridMin inverseCellWidth gridCellStartIndices boid_pos =
     validNeighborCells gridCellStartIndices
       (candidateCells (gridIndex3D boid_pos gridMin inverseCellWidth)
          (biasAlongAxes boid_pos gridMin inverseCellWidth) gridResolution)"

section \<open>Grid velocity updates\<close>

text \<open>
  The loop nest that each of the three rules runs in both grid kernels: for every valid
  neighbour cell, for every slot \<open>j\<close> from the cell's start to its end.
\<close>

definition forCells ::
  "int list \<Rightarrow> int list \<Rightarrow> int list \<Rightarrow> (int \<Rightarrow> 'a \<Rightarrow> error + 'a) \<Rightarrow> 'a \<Rightarrow> error + 'a" where
  "forCells gridCellStartIndices gridCellEndIndices valid_neighbor_idx_list body acc =
     foldE (\<lambda>cell_idx a.
              bindE (readAt gridCellStartIndices cell_idx) (\<lambda>cell_boid_start_idx.
              bindE (readAt gridCellEndIndices cell_idx) (\<lambda>cell_boid_end_idx.
              foldE body [cell_boid_start_idx..cell_boid_end_idx] a)))
       valid_neighbor_idx_list acc"

text \<open>
  The test of the inner loop of the scattered kernel: the boid is found through
  \<^verbatim>\<open>particleArrayIndices\<close>, and its position is read only when it is not the boid itself.
\<close>

definition visitScattered ::
  "int list \<Rightarrow> vec3 list \<Rightarrow> nat \<Rightarrow> real \<Rightarrow> (int \<Rightarrow> 'a \<Rightarrow> error + 'a) \<Rightarrow> int \<Rightarrow> 'a
     \<Rightarrow> error + 'a" where
  "visitScattered particleArrayIndices pos idx ruleDistance accumulate j acc =
     bindE (readAt particleArrayIndices j) (\<lambda>neighbor_boid_idx.
       if neighbor_boid_idx \<noteq> int idx then
         bindE (readAt pos neighbor_boid_idx) (\<lambda>p.
           if glm_distance p (pos ! idx) < ruleDistance
           then accumulate neighbor_boid_idx acc else Inr acc)
       else Inr acc)"

text \<open>The same test in the coherent kernel: the slot is the boid.\<close>

definition visitCoherent ::
  "vec3 list \<Rightarrow> nat \<Rightarrow> real \<Rightarrow> (int \<Rightarrow> 'a \<Rightarrow> error + 'a) \<Rightarrow> int \<Rightarrow> 'a \<Rightarrow> error + 'a" where
  "visitCoherent pos idx ruleDistance accumulate j acc =
     (if j \<noteq> int idx then
        bindE (readAt pos j) (\<lambda>p.
          if glm_distance p (pos ! idx) < ruleDistance then accumulate j acc else Inr acc)
      else Inr acc)"

text \<open>The bodies of the three tests.\<close>

definition accumulateRule1 :: "vec3 list \<Rightarrow> int \<Rightarrow> vec3 \<times> int \<Rightarrow> error + vec3 \<times> int" where
  "accumulateRule1 pos i acc =
     (case acc of (perceived_center, numInfluencingNeighbors) \<Rightarrow>
        bindE (readAt pos i) (\<lambda>p. Inr (perceived_center + p, numInfluencingNeighbors + 1)))"

definition accumulateRule2 :: "vec3 list \<Rightarrow> vec3 \<Rightarrow> int \<Rightarrow> vec3 \<Rightarrow> error + vec3" where
  "accumulateRule2 pos boid_pos i center =
     bindE (readAt pos i) (\<lambda>p. Inr (center - (p - boid_pos)))"

definition accumulateRule3 :: "vec3 list \<Rightarrow> int \<Rightarrow> vec3 \<times> int \<Rightarrow> error + vec3 \<times> int" where
  "accumulateRule3 vel1 i acc =
     (case acc of (perceived_vel, numInfluencingNeighbors) \<Rightarrow>
        bindE (readAt vel1 i) (\<lambda>v. Inr (perceived_vel + v, numInfluencingNeighbors + 1)))"

text \<open>The velocity of a boid before the clamp, in the two grid kernels.\<close>

definition scatteredVelocity ::
  "int \<Rightarrow> vec3 \<Rightarrow> real \<Rightarrow> int list \<Rightarrow> int list \<Rightarrow> int list \<Rightarrow> vec3 list \<Rightarrow> vec3 list \<Rightarrow> nat
     \<Rightarrow> error + vec3" where
  "scatteredVelocity gridResolution gridMin inverseCellWidth gridCellStartIndices
       gridCellEndIndices particleArrayIndices pos vel1 idx =
     (let boid_pos = pos ! idx in
      bindE (neighborCells gridResolution gridMin inverseCellWidth gridCellStartIndices boid_pos)
        (\<lambda>cells.
      let boid_vel = vel1 ! idx;
          new_vel = boid_vel in
      bindE (forCells gridCellStartIndices gridCellEndIndices cells
               (visitScattered particleArrayIndices pos idx rule1Distance (accumulateRule1 pos))
               (0, 0))
        (\<lambda>rule1.
      let new_vel = new_vel + rule1Term rule1 boid_pos in
      bindE (forCells gridCellStartIndices gridCellEndIndices cells
               (visitScattered particleArrayIndices pos idx rule2Distance
                  (accumulateRule2 pos boid_pos))
               0)
        (\<lambda>center.
      let new_vel = new_vel + rule2Term center in
      bindE (forCells gridCellStartIndices gridCellEndIndices cells
               (visitScattered particleArrayIndices pos idx rule3Distance (accumulateRule3 vel1))
               (0, 0))
        (\<lambda>rule3.
      let new_vel = new_vel + rule3Term rule3 in
      Inr new_vel)))))"

definition coherentVelocity ::
  "int \<Rightarrow> vec3 \<Rightarrow> real \<Rightarrow> int list \<Rightarrow> int list \<Rightarrow> vec3 list \<Rightarrow> vec3 list \<Rightarrow> nat
     \<Rightarrow> error + vec3" where
  "coherentVelocity gridResolution gridMin inverseCellWidth gridCellStartIndices
       gridCellEndIndices pos vel1 idx =
     (let boid_pos = pos ! idx in
      bindE (neighborCells gridResolution gridMin inverseCellWidth gridCellStartIndices boid_pos)
        (\<lambda>cells.
      let boid_vel = vel1 ! idx;
          new_vel = boid_vel in
      bindE (forCells gridCellStartIndices gridCellEndIndices cells
               (visitCoherent pos idx rule1Distance (accumulateRule1 pos)) (0, 0))
        (\<lambda>rule1.
      let new_vel = new_vel + rule1Term rule1 boid_pos in
      bindE (forCells gridCellStartIndices gridCellEndIndices cells
               (visitCoherent pos idx rule2Distance (accumulateRule2 pos boid_pos)) 0)
        (\<lambda>center.
      let new_vel = new_vel + rule2Term center in
      bindE (forCells gridCellStartIndices gridCellEndIndices cells
               (visitCoherent pos idx rule3Distance (accumulateRule3 vel1)) (0, 0))
        (\<lambda>rule3.
      let new_vel = new_vel + rule3Term rule3 in
      Inr new_vel)))))"

text \<open>The speed clamp of the two grid kernels.\<close>

definition clampGrid :: "vec3 \<Rightarrow> vec3" where
  "clampGrid new_vel =
     (if glm_length new_vel > maxSpeed then vscale (glm_normalize new_vel) maxSpeed
      else new_vel)"

definition kernUpdateVelNeighborSearchScattered ::
  "nat \<Rightarrow> int \<Rightarrow> vec3 \<Rightarrow> real \<Rightarrow> int list \<Rightarrow> int list \<Rightarrow> int list \<Rightarrow> vec3 list \<Rightarrow> vec3 list
     \<Rightarrow> nat \<Rightarrow> vec3 list \<Rightarrow> error + vec3 list" where
  "kernUpdateVelNeighborSearchScattered N gridResolution gridMin inverseCellWidth
       gridCellStartIndices gridCellEndIndices particleArrayIndices pos vel1 idx vel2 =
     (if idx < N then
        bindE (scatteredVelocity gridResolution gridMin inverseCellWidth gridCellStartIndices
                 gridCellEndIndices particleArrayIndices pos vel1 idx)
          (\<lambda>new_vel. Inr (vel2[idx := clampGrid new_vel]))
      else Inr vel2)"

definition kernUpdateVelNeighborSearchCoherent ::
  "nat \<Rightarrow> int \<Rightarrow> vec3 \<Rightarrow> real \<Rightarrow> int list \<Rightarrow> int list \<Rightarrow> vec3 list \<Rightarrow> vec3 list
     \<Rightarrow> nat \<Rightarrow> vec3 list \<Rightarrow> error + vec3 list" where
  "kernUpdateVelNeighborSearchCoherent N gridResolution gridMin inverseCellWidth
       gridCellStartIndices gridCellEndIndices pos vel1 idx vel2 =
     (if idx < N then
        bindE (coherentVelocity gridResolution gridMin inverseCellWidth gridCellStartIndices
                 gridCellEndIndices pos vel1 idx)
          (\<lambda>new_vel. Inr (vel2[idx := clampGrid new_vel]))
      else Inr vel2)"

section \<open>Simulation state and steps\<close>

text \<open>The device buffers, and \<^verbatim>\<open>numObjects\<close>.\<close>

record sim =
  numObjects :: nat
  dev_pos :: "vec3 list"
  dev_vel1 :: "vec3 list"
  dev_vel2 :: "vec3 list"
  dev_particleArrayIndices :: "int list"
  dev_particleGridIndices :: "int list"
  dev_gridCellStartIndices :: "int list"
  dev_gridCellEndIndices :: "int list"
  dev_posGridIndices :: "int list"
  dev_velGridIndices :: "int list"

text \<open>The sizes that \<^verbatim>\<open>Boids::initSimulation\<close> allocates the buffers with.\<close>

definition allocated :: "sim \<Rightarrow> bool" where
  "allocated s =
     (length (dev_pos s) = numObjects s \<and>
      length (dev_vel1 s) = numObjects s \<and>
      length (dev_vel2 s) = numObjects s \<and>
      length (dev_particleArrayIndices s) = numObjects s \<and>
      length (dev_particleGridIndices s) = numObjects s \<and>
      length (dev_gridCellStartIndices s) = nat gridCellCount \<and>
      length (dev_gridCellEndIndices s) = nat gridCellCount \<and>
      length (dev_posGridIndices s) = numObjects s \<and>
      length (dev_velGridIndices s) = numObjects s)"

text \<open>
  \<^verbatim>\<open>thrust::sort_by_key\<close> is library code. It moves the values with their keys and never
  looks at a value, so what it does to a key array is a list of input slots: slot \<open>i\<close>
  of the output holds what was at slot \<open>p ! i\<close> of the input. The library's choice of
  \<open>p\<close> for a key array is the parameter \<open>srt\<close> of the grid steps; \<open>sorts srt keys\<close>
  says that the choice is a permutation of the slots that puts the keys in
  non-decreasing order. Which of several such permutations is chosen (the order among
  equal keys) is left open.
\<close>

type_synonym sorter = "int list \<Rightarrow> nat list"

definition sort_by_key :: "sorter \<Rightarrow> int list \<Rightarrow> 'a list \<Rightarrow> int list \<times> 'a list" where
  "sort_by_key srt keys vals =
     (let p = srt keys in (map (\<lambda>i. keys ! i) p, map (\<lambda>i. vals ! i) p))"

definition sorts :: "sorter \<Rightarrow> int list \<Rightarrow> bool" where
  "sorts srt keys =
     (mset (srt keys) = mset [0..<length keys] \<and> sorted (map (\<lambda>i. keys ! i) (srt keys)))"

text \<open>One such choice: the stable one.\<close>

definition stable_sorter :: sorter where
  "stable_sorter keys = sort_key (\<lambda>i. keys ! i) [0..<length keys]"

text \<open>The end of every step: the buffers swap their roles, the positions move.\<close>

definition swapAndMove :: "real \<Rightarrow> sim \<Rightarrow> sim" where
  "swapAndMove dt s =
     (let s = s\<lparr>dev_vel1 := dev_vel2 s, dev_vel2 := dev_vel1 s\<rparr>
      in s\<lparr>dev_pos :=
             launch (fullBlocksPerGrid (numObjects s))
               (kernUpdatePos (numObjects s) dt (dev_vel1 s)) (dev_pos s)\<rparr>)"

definition stepSimulationNaive :: "real \<Rightarrow> sim \<Rightarrow> sim" where
  "stepSimulationNaive dt s =
     swapAndMove dt
       (s\<lparr>dev_vel2 :=
            launch (fullBlocksPerGrid (numObjects s))
              (kernUpdateVelocityBruteForce (numObjects s) (dev_pos s) (dev_vel1 s))
              (dev_vel2 s)\<rparr>)"

text \<open>
  The part that the two grid steps share: the reset of the cell table and the labelling
  of the boids.
\<close>

definition resetAndLabel :: "sim \<Rightarrow> sim" where
  "resetAndLabel s =
     (let particles = fullBlocksPerGrid (numObjects s);
          cells = fullBlocksPerGrid (nat gridCellCount);
          s = s\<lparr>dev_gridCellStartIndices :=
                 launch cells (kernResetIntBuffer (nat gridCellCount) (- 1))
                   (dev_gridCellStartIndices s)\<rparr>;
          s = s\<lparr>dev_gridCellEndIndices :=
                 launch cells (kernResetIntBuffer (nat gridCellCount) (- 1))
                   (dev_gridCellEndIndices s)\<rparr>;
          labelled =
            launch particles
              (kernComputeIndices (numObjects s) gridSideCount gridMinimum gridInverseCellWidth
                 (dev_pos s))
              (dev_particleArrayIndices s, dev_particleGridIndices s)
      in s\<lparr>dev_particleArrayIndices := fst labelled, dev_particleGridIndices := snd labelled\<rparr>)"

text \<open>The sort of the index array by grid index, and the cell table of the sorted array.\<close>

definition sortAndIdentify :: "sorter \<Rightarrow> sim \<Rightarrow> error + sim" where
  "sortAndIdentify srt s =
     (let particles = fullBlocksPerGrid (numObjects s);
          sorted_kv = sort_by_key srt (dev_particleGridIndices s) (dev_particleArrayIndices s);
          s = s\<lparr>dev_particleGridIndices := fst sorted_kv,
                dev_particleArrayIndices := snd sorted_kv\<rparr>
      in bindE (launchE particles
                  (kernIdentifyCellStartEnd (numObjects s) (dev_particleGridIndices s))
                  (dev_gridCellStartIndices s, dev_gridCellEndIndices s))
           (\<lambda>table. Inr (s\<lparr>dev_gridCellStartIndices := fst table,
                             dev_gridCellEndIndices := snd table\<rparr>)))"

definition stepSimulationScatteredGrid :: "sorter \<Rightarrow> real \<Rightarrow> sim \<Rightarrow> error + sim" where
  "stepSimulationScatteredGrid srt dt s =
     bindE (sortAndIdentify srt (resetAndLabel s)) (\<lambda>s.
     bindE (launchE (fullBlocksPerGrid (numObjects s))
              (kernUpdateVelNeighborSearchScattered (numObjects s) gridSideCount gridMinimum
                 gridInverseCellWidth (dev_gridCellStartIndices s) (dev_gridCellEndIndices s)
                 (dev_particleArrayIndices s) (dev_pos s) (dev_vel1 s))
              (dev_vel2 s))
       (\<lambda>vel2. Inr (swapAndMove dt (s\<lparr>dev_vel2 := vel2\<rparr>))))"

text \<open>
  The coherent step up to the velocity kernel: the two copies of the grid indices are
  taken before the index array is sorted, and the positions and the velocities are then
  sorted in place, each by its own copy.
\<close>

definition coherentReorder :: "sorter \<Rightarrow> sim \<Rightarrow> error + sim" where
  "coherentReorder srt s =
     (let s = resetAndLabel s;
          s = s\<lparr>dev_posGridIndices := dev_particleGridIndices s\<rparr>;
          s = s\<lparr>dev_velGridIndices := dev_particleGridIndices s\<rparr>
      in bindE (sortAndIdentify srt s) (\<lambda>s.
         let sorted_pos = sort_by_key srt (dev_posGridIndices s) (dev_pos s);
             s = s\<lparr>dev_posGridIndices := fst sorted_pos, dev_pos := snd sorted_pos\<rparr>;
             sorted_vel = sort_by_key srt (dev_velGridIndices s) (dev_vel1 s);
             s = s\<lparr>dev_velGridIndices := fst sorted_vel, dev_vel1 := snd sorted_vel\<rparr>
         in Inr s))"

definition stepSimulationCoherentGrid :: "sorter \<Rightarrow> real \<Rightarrow> sim \<Rightarrow> error + sim" where
  "stepSimulationCoherentGrid srt dt s =
     bindE (coherentReorder srt s) (\<lambda>s.
     bindE (launchE (fullBlocksPerGrid (numObjects s))
              (kernUpdateVelNeighborSearchCoherent (numObjects s) gridSideCount gridMinimum
                 gridInverseCellWidth (dev_gridCellStartIndices s) (dev_gridCellEndIndices s)
                 (dev_pos s) (dev_vel1 s))
              (dev_vel2 s))
       (\<lambda>vel2. Inr (swapAndMove dt (s\<lparr>dev_vel2 := vel2\<rparr>))))"

section \<open>Example states\<close>

definition scenarioPos :: "vec3 list" where "scenarioPos = [Vec3 0 0 0, Vec3 1 0 0]"
definition scenarioVel :: "vec3 list" where "scenarioVel = [Vec3 0 0 0, Vec3 0 0 0]"


text \<open>
  A state as \<^verbatim>\<open>Boids::initSimulation\<close> allocates it, holding the given positions and
  velocities. The other buffers hold zeros: every step writes them before it reads them.
\<close>

definition simOf :: "vec3 list \<Rightarrow> vec3 list \<Rightarrow> sim" where
  "simOf pos vel =
     \<lparr>numObjects = length pos,
      dev_pos = pos,
      dev_vel1 = vel,
      dev_vel2 = replicate (length pos) 0,
      dev_particleArrayIndices = replicate (length pos) 0,
      dev_particleGridIndices = replicate (length pos) 0,
      dev_gridCellStartIndices = replicate (nat gridCellCount) 0,
      dev_gridCellEndIndices = replicate (nat gridCellCount) 0,
      dev_posGridIndices = replicate (length pos) 0,
      dev_velGridIndices = replicate (length pos) 0\<rparr>"

text \<open>A single boid away from the origin, at rest.\<close>

definition lonePos :: "vec3 list" where "lonePos = [Vec3 10 0 0]"
definition loneVel :: "vec3 list" where "loneVel = [Vec3 0 0 0]"

text \<open>Two boids at rest, the first in a cell with a larger grid index than the second.\<close>

definition crossedPos :: "vec3 list" where "crossedPos = [Vec3 1 0 0, Vec3 (- 1) 0 0]"
definition crossedVel :: "vec3 list" where "crossedVel = [Vec3 0 0 0, Vec3 0 0 0]"


text \<open>Velocities that tell the two boids apart.\<close>

definition markedVel :: "vec3 list" where
  "markedVel = [Vec3 0 (1 / 10) 0, Vec3 0 0 (1 / 10)]"

text \<open>A single boid at the origin, three times faster than \<^verbatim>\<open>maxSpeed\<close>.\<close>

definition fastPos :: "vec3 list" where "fastPos = [Vec3 0 0 0]"
definition fastVel :: "vec3 list" where "fastVel = [Vec3 3 0 0]"

text \<open>The positions that the wrap of \<^verbatim>\<open>kernUpdatePos\<close> keeps: inside the scene, bounds included.\<close>

definition inScene :: "vec3 \<Rightarrow> bool" where
  "inScene p =
     (- scene_scale \<le> vx p \<and> vx p \<le> scene_scale \<and>
      - scene_scale \<le> vy p \<and> vy p \<le> scene_scale \<and>
      - scene_scale \<le> vz p \<and> vz p \<le> scene_scale)"

text \<open>
  The start array of a grid of two cells per side in which the cells 0, 2 and 7 hold boids.
\<close>

definition sparseStarts :: "int list" where
  "sparseStarts = [2, - 1, 0, - 1, - 1, - 1, - 1, 1]"

section \<open>Notions of the statements\<close>

text \<open>
  Boid \<open>j\<close> has been labelled with one of the cells that a grid kernel searches for boid
  \<open>i\<close>.
\<close>

definition inSearchedCells :: "vec3 list \<Rightarrow> nat \<Rightarrow> nat \<Rightarrow> bool" where
  "inSearchedCells pos i j =
     (gridIndex1D (pos ! j) gridMinimum gridInverseCellWidth gridSideCount
      \<in> set (candidateCells (gridIndex3D (pos ! i) gridMinimum gridInverseCellWidth)
               (biasAlongAxes (pos ! i) gridMinimum gridInverseCellWidth) gridSideCount))"

text \<open>
  The loops of \<^verbatim>\<open>computeVelocityChange\<close> over the boids of the searched cells only: what
  a thread of a grid kernel computes for boid \<open>iSelf\<close>, as the theorems below show.
\<close>

definition searchedRule1 :: "nat \<Rightarrow> nat \<Rightarrow> vec3 list \<Rightarrow> vec3 \<times> int" where
  "searchedRule1 N iSelf pos =
     fold (\<lambda>i a.
             if inSearchedCells pos iSelf i \<and> i \<noteq> iSelf \<and>
                glm_distance (pos ! i) (pos ! iSelf) < rule1Distance
             then (fst a + pos ! i, snd a + 1) else a)
       [0..<N] (0, 0)"

definition searchedRule2 :: "nat \<Rightarrow> nat \<Rightarrow> vec3 list \<Rightarrow> vec3" where
  "searchedRule2 N iSelf pos =
     fold (\<lambda>i center.
             if inSearchedCells pos iSelf i \<and> i \<noteq> iSelf \<and>
                glm_distance (pos ! i) (pos ! iSelf) < rule2Distance
             then center - (pos ! i - pos ! iSelf) else center)
       [0..<N] 0"

definition searchedRule3 :: "nat \<Rightarrow> nat \<Rightarrow> vec3 list \<Rightarrow> vec3 list \<Rightarrow> vec3 \<times> int" where
  "searchedRule3 N iSelf pos vel =
     fold (\<lambda>i a.
             if inSearchedCells pos iSelf i \<and> i \<noteq> iSelf \<and>
                glm_distance (pos ! i) (pos ! iSelf) < rule3Distance
             then (fst a + vel ! i, snd a + 1) else a)
       [0..<N] (0, 0)"

definition searchedVelocityChange :: "nat \<Rightarrow> nat \<Rightarrow> vec3 list \<Rightarrow> vec3 list \<Rightarrow> vec3" where
  "searchedVelocityChange N iSelf pos vel =
     vel ! iSelf + rule1Term (searchedRule1 N iSelf pos) (pos ! iSelf)
       + rule2Term (searchedRule2 N iSelf pos) + rule3Term (searchedRule3 N iSelf pos vel)"

text \<open>
  The largest rule distance, with a slack of \<open>0.001\<close>. The kernels compare a distance
  computed in \<^verbatim>\<open>float\<close> with the rule distance, so they may count a boid whose exact
  distance is above the rule distance by a rounding error, which for distances near 5 is
  below \<open>0.00001\<close>.
\<close>

definition searchRadius :: real where
  "searchRadius = max (max rule1Distance rule2Distance) rule3Distance + 1 / 1000"

text \<open>
  Every boid within the search radius of a boid has been labelled with one of the cells
  searched for that boid.
\<close>

definition neighborsCovered :: "vec3 list \<Rightarrow> bool" where
  "neighborsCovered pos =
     list_all (\<lambda>i. list_all (\<lambda>j.
         glm_distance (pos ! j) (pos ! i) < searchRadius \<longrightarrow> inSearchedCells pos i j)
       [0..<length pos]) [0..<length pos]"


section \<open>Facts about the rounding\<close>

lemma rte_bounds: "\<lfloor>x\<rfloor> \<le> round_ties_even x" "round_ties_even x \<le> \<lfloor>x\<rfloor> + 1"
  by (simp_all add: round_ties_even_def Let_def)

lemma rte_of_int [simp]: "round_ties_even (of_int n) = n"
  by (simp add: round_ties_even_def)

lemma rte_mono:
  assumes "x \<le> y"
  shows "round_ties_even x \<le> round_ties_even y"
proof (cases "\<lfloor>x\<rfloor> = \<lfloor>y\<rfloor>")
  case True
  then show ?thesis using assms by (simp add: round_ties_even_def Let_def)
next
  case False
  with assms have "\<lfloor>x\<rfloor> < \<lfloor>y\<rfloor>" using floor_mono [OF assms] by simp
  then have "\<lfloor>x\<rfloor> + 1 \<le> \<lfloor>y\<rfloor>" by simp
  with rte_bounds(2) [of x] rte_bounds(1) [of y] show ?thesis by linarith
qed

lemma binade_bounds:
  assumes "x \<noteq> 0"
  shows "power_int 2 (binade x) \<le> \<bar>x\<bar>" "\<bar>x\<bar> < power_int 2 (binade x + 1)"
proof -
  have "power_int 2 (binade x) \<le> \<bar>x\<bar> \<and> \<bar>x\<bar> < power_int 2 (binade x + 1)"
  proof (cases "1 \<le> \<bar>x\<bar>")
    case True
    define m where "m = \<lfloor>\<bar>x\<bar>\<rfloor>"
    have m: "0 < m" using True by (simp add: m_def)
    have e: "binade x = bitlen m - 1" using True by (simp add: binade_def m_def)
    from bitlen_bounds [OF m] have lo: "2 ^ nat (bitlen m - 1) \<le> m" and hi: "m < 2 ^ nat (bitlen m)"
      by simp_all
    have b1: "1 \<le> bitlen m" using m by (simp add: bitlen_alt_def)
    have "real_of_int (2 ^ nat (bitlen m - 1)) \<le> real_of_int m" using lo by (simp only: of_int_le_iff)
    also have "real_of_int m \<le> \<bar>x\<bar>" by (simp add: m_def)
    finally have A: "power_int 2 (binade x) \<le> \<bar>x\<bar>"
      unfolding e using b1 by (simp add: power_int_nonneg_exp)
    from hi have "m + 1 \<le> 2 ^ nat (bitlen m)" by simp
    then have "real_of_int (m + 1) \<le> real_of_int (2 ^ nat (bitlen m))" by (simp only: of_int_le_iff)
    moreover have "\<bar>x\<bar> < real_of_int (m + 1)" by (simp add: m_def)
    ultimately have "\<bar>x\<bar> < real_of_int (2 ^ nat (bitlen m))" by linarith
    then have B: "\<bar>x\<bar> < power_int 2 (binade x + 1)"
      unfolding e using b1 by (simp add: power_int_nonneg_exp)
    from A B show ?thesis ..
  next
    case False
    define y where "y = 1 / \<bar>x\<bar>"
    define n where "n = \<lceil>y\<rceil> - 1"
    have xp: "0 < \<bar>x\<bar>" using assms by simp
    have y1: "1 < y" using False xp by (simp add: y_def)
    have n: "0 < n" using y1 by (simp add: n_def less_ceiling_iff)
    have e: "binade x = - bitlen n" using False by (simp add: binade_def n_def y_def)
    from bitlen_bounds [OF n] have lo: "2 ^ nat (bitlen n - 1) \<le> n" and hi: "n < 2 ^ nat (bitlen n)"
      by simp_all
    have b1: "1 \<le> bitlen n" using n by (simp add: bitlen_alt_def)
    have ny: "real_of_int n < y" and yn: "y \<le> real_of_int (n + 1)"
      by (simp_all add: n_def) linarith
    from hi have "n + 1 \<le> 2 ^ nat (bitlen n)" by simp
    then have "real_of_int (n + 1) \<le> real_of_int (2 ^ nat (bitlen n))" by (simp only: of_int_le_iff)
    with yn have "y \<le> 2 ^ nat (bitlen n)" by simp
    then have "1 / 2 ^ nat (bitlen n) \<le> \<bar>x\<bar>"
      using xp by (simp add: y_def field_simps)
    then have A: "power_int 2 (binade x) \<le> \<bar>x\<bar>"
      unfolding e using b1 by (simp add: power_int_minus_divide power_int_nonneg_exp)
    have "real_of_int (2 ^ nat (bitlen n - 1)) \<le> real_of_int n" using lo by (simp only: of_int_le_iff)
    with ny have "2 ^ nat (bitlen n - 1) < y" by (simp only: of_int_power of_int_numeral)
    then have "\<bar>x\<bar> < 1 / 2 ^ nat (bitlen n - 1)"
      using xp by (simp add: y_def field_simps)
    moreover have "power_int (2 :: real) (- bitlen n + 1) = 1 / 2 ^ nat (bitlen n - 1)"
    proof -
      have "- bitlen n + 1 = - (bitlen n - 1)" by simp
      then show ?thesis using b1 by (simp only: power_int_minus_divide) (simp add: power_int_nonneg_exp)
    qed
    ultimately have B: "\<bar>x\<bar> < power_int 2 (binade x + 1)" unfolding e by simp
    from A B show ?thesis ..
  qed
  then show "power_int 2 (binade x) \<le> \<bar>x\<bar>" "\<bar>x\<bar> < power_int 2 (binade x + 1)" by simp_all
qed

lemma pow2_less_cancel:
  assumes "power_int (2 :: real) a < power_int 2 b"
  shows "a < b"
proof (rule ccontr)
  assume "\<not> a < b"
  then have "b \<le> a" by simp
  then have "power_int (2 :: real) b \<le> power_int 2 a" by (rule power_int_increasing) simp
  with assms show False by simp
qed

lemma binade_unique:
  assumes "power_int 2 e \<le> \<bar>x\<bar>" and "\<bar>x\<bar> < power_int 2 (e + 1)"
  shows "binade x = e"
proof -
  have "0 < \<bar>x\<bar>" using assms(1) by (smt (verit) zero_less_power_int)
  then have x: "x \<noteq> 0" by simp
  note b = binade_bounds [OF x]
  have "power_int (2 :: real) (binade x) < power_int 2 (e + 1)" using b(1) assms(2) by linarith
  then have "binade x < e + 1" by (rule pow2_less_cancel)
  moreover have "power_int (2 :: real) e < power_int 2 (binade x + 1)" using b(2) assms(1) by linarith
  then have "e < binade x + 1" by (rule pow2_less_cancel)
  ultimately show ?thesis by simp
qed

lemma float32_eval:
  assumes "power_int 2 e \<le> \<bar>x\<bar>" and "\<bar>x\<bar> < power_int 2 (e + 1)"
  shows "float32 x = of_int (round_ties_even (x / power_int 2 (e - 23))) * power_int 2 (e - 23)"
proof -
  have "0 < \<bar>x\<bar>" using assms(1) by (smt (verit) zero_less_power_int)
  then have "x \<noteq> 0" by simp
  then show ?thesis by (simp add: float32_def Let_def binade_unique [OF assms])
qed

lemma pow2_split: "power_int (2 :: real) (e - 23) * 8388608 = power_int 2 e"
  "power_int (2 :: real) (e - 23) * 16777216 = power_int 2 (e + 1)"
proof -
  have "power_int (2 :: real) (e - 23 + 23) = power_int 2 (e - 23) * power_int 2 23"
    by (rule power_int_add) simp
  then show "power_int (2 :: real) (e - 23) * 8388608 = power_int 2 e" by simp
  have "power_int (2 :: real) (e - 23 + 24) = power_int 2 (e - 23) * power_int 2 24"
    by (rule power_int_add) simp
  moreover have "e - 23 + 24 = e + 1" by simp
  ultimately show "power_int (2 :: real) (e - 23) * 16777216 = power_int 2 (e + 1)" by simp
qed

lemma float32_range:
  assumes "0 < x"
  shows "power_int 2 (binade x) \<le> float32 x" "float32 x \<le> power_int 2 (binade x + 1)"
proof -
  define e where "e = binade x"
  define q :: real where "q = power_int 2 (e - 23)"
  have x0: "x \<noteq> 0" using assms by simp
  have q: "0 < q" by (simp add: q_def)
  from binade_bounds [OF x0] assms have lo: "power_int 2 e \<le> x" and hi: "x < power_int 2 (e + 1)"
    by (simp_all add: e_def)
  have fl: "float32 x = of_int (round_ties_even (x / q)) * q"
    using x0 by (simp add: float32_def Let_def e_def q_def)
  have "q * 8388608 \<le> x" using lo unfolding q_def pow2_split .
  then have "real_of_int 8388608 \<le> x / q" using q by (simp add: field_simps)
  then have "round_ties_even (of_int 8388608) \<le> round_ties_even (x / q)"
    by (rule rte_mono)
  then have "8388608 \<le> round_ties_even (x / q)" by (simp only: rte_of_int)
  then have "real_of_int 8388608 \<le> of_int (round_ties_even (x / q))" by (simp only: of_int_le_iff)
  then have "8388608 * q \<le> of_int (round_ties_even (x / q)) * q"
    using q by simp
  moreover have "8388608 * q = power_int 2 e"
    using pow2_split(1) [of e] by (simp add: q_def mult.commute)
  ultimately show "power_int 2 (binade x) \<le> float32 x"
    unfolding fl e_def [symmetric] by simp
  have "x \<le> q * 16777216" using hi unfolding q_def pow2_split by simp
  then have "x / q \<le> real_of_int 16777216" using q by (simp add: field_simps)
  then have "round_ties_even (x / q) \<le> round_ties_even (of_int 16777216)"
    by (rule rte_mono)
  then have "round_ties_even (x / q) \<le> 16777216" by (simp only: rte_of_int)
  then have "of_int (round_ties_even (x / q)) \<le> real_of_int 16777216" by (simp only: of_int_le_iff)
  then have "of_int (round_ties_even (x / q)) * q \<le> 16777216 * q"
    using q by simp
  moreover have "16777216 * q = power_int 2 (e + 1)"
    using pow2_split(2) [of e] by (simp add: q_def mult.commute)
  ultimately show "float32 x \<le> power_int 2 (binade x + 1)"
    unfolding fl e_def [symmetric] by simp
qed

lemma float32_mono:
  assumes "0 < x" and "x \<le> y"
  shows "float32 x \<le> float32 y"
proof -
  have y: "0 < y" using assms by simp
  have x0: "x \<noteq> 0" and y0: "y \<noteq> 0" using assms by simp_all
  note bx = binade_bounds [OF x0] and by' = binade_bounds [OF y0]
  have "power_int (2 :: real) (binade x) < power_int 2 (binade y + 1)"
    using bx(1) by'(2) assms by simp
  then have le: "binade x \<le> binade y" using pow2_less_cancel by fastforce
  show ?thesis
  proof (cases "binade x = binade y")
    case True
    define q :: real where "q = power_int 2 (binade y - 23)"
    have q: "0 < q" by (simp add: q_def)
    have "x / q \<le> y / q" using assms(2) q by (simp add: divide_right_mono)
    then have "round_ties_even (x / q) \<le> round_ties_even (y / q)" by (rule rte_mono)
    then have "real_of_int (round_ties_even (x / q)) * q \<le> real_of_int (round_ties_even (y / q)) * q"
      using q by simp
    then show ?thesis using x0 y0 True by (simp add: float32_def Let_def q_def)
  next
    case False
    with le have "binade x + 1 \<le> binade y" by simp
    then have "power_int (2 :: real) (binade x + 1) \<le> power_int 2 (binade y)"
      by (rule power_int_increasing) simp
    with float32_range(2) [OF assms(1)] float32_range(1) [OF y] show ?thesis by linarith
  qed
qed

lemma float32_values:
  "float32 10 = 10" "float32 210 = 210" "float32 (1 / 10) = 13421773 / 134217728"
  "float32 (10 * (13421773 / 134217728)) = 1" "float32 (210 * (13421773 / 134217728)) = 21"
proof -
  show "float32 10 = 10"
    by (subst float32_eval [of 3]) (simp_all add: round_ties_even_def power_int_minus_divide)
  show "float32 210 = 210"
    by (subst float32_eval [of 7]) (simp_all add: round_ties_even_def power_int_minus_divide)
  show "float32 (1 / 10) = 13421773 / 134217728"
    by (subst float32_eval [of "- 4"]) (simp_all add: round_ties_even_def power_int_minus_divide)
  show "float32 (10 * (13421773 / 134217728)) = 1"
    by (subst float32_eval [of 0]) (simp_all add: round_ties_even_def power_int_minus_divide)
  show "float32 (210 * (13421773 / 134217728)) = 21"
    by (subst float32_eval [of 4]) (simp_all add: round_ties_even_def power_int_minus_divide)
qed

lemma float32_exact:
  assumes "power_int 2 e \<le> \<bar>x\<bar>" and "\<bar>x\<bar> < power_int 2 (e + 1)"
    and "x / power_int 2 (e - 23) = of_int n"
  shows "float32 x = x"
proof -
  have "float32 x = of_int n * power_int 2 (e - 23)"
    unfolding float32_eval [OF assms(1,2)] assms(3) by simp
  also have "\<dots> = x" unfolding assms(3) [symmetric] by simp
  finally show ?thesis .
qed

section \<open>Basic facts\<close>

lemma vec3_eq_iff: "(a = b) = (vx a = vx b \<and> vy a = vy b \<and> vz a = vz b)"
  by (auto intro: vec3.expand)

lemma vec3_sel [simp]:
  "vx (a + b) = vx a + vx b" "vy (a + b) = vy a + vy b" "vz (a + b) = vz a + vz b"
  "vx (a - b) = vx a - vx b" "vy (a - b) = vy a - vy b" "vz (a - b) = vz a - vz b"
  "vx (- a) = - vx a" "vy (- a) = - vy a" "vz (- a) = - vz a"
  "vx (0::vec3) = 0" "vy (0::vec3) = 0" "vz (0::vec3) = 0"
  "vx (vscale a s) = vx a * s" "vy (vscale a s) = vy a * s" "vz (vscale a s) = vz a * s"
  "vx (vdivide a n) = vx a / of_int n" "vy (vdivide a n) = vy a / of_int n"
  "vz (vdivide a n) = vz a / of_int n"
  by (simp_all add: plus_vec3_def minus_vec3_def uminus_vec3_def zero_vec3_def vscale_def
      vdivide_def)

lemma blocks_cover: "N \<le> fullBlocksPerGrid N * blockSize"
  unfolding fullBlocksPerGrid_def blockSize_def by simp

lemma fold_idle: "(\<And>x s. x \<in> set xs \<Longrightarrow> f x s = s) \<Longrightarrow> fold f xs s = s"
  by (induction xs arbitrary: s) simp_all

lemma launch_guarded:
  assumes "\<And>idx s. N \<le> idx \<Longrightarrow> thread idx s = s"
  shows "launch (fullBlocksPerGrid N) thread s = fold thread [0..<N] s"
proof -
  have "[0..<fullBlocksPerGrid N * blockSize] = [0..<N] @ [N..<fullBlocksPerGrid N * blockSize]"
    using blocks_cover [of N] by (metis le_add_diff_inverse upt_add_eq_append zero_le)
  moreover have "fold thread [N..<fullBlocksPerGrid N * blockSize] t = t" for t
    by (rule fold_idle) (simp add: assms)
  ultimately show ?thesis by (simp add: launch_def)
qed

lemma foldE_append: "foldE f (xs @ ys) a = bindE (foldE f xs a) (foldE f ys)"
  by (induction xs arbitrary: a) (simp_all add: bindE_def split: sum.splits)

lemma foldE_idle: "(\<And>x s. x \<in> set xs \<Longrightarrow> f x s = Inr s) \<Longrightarrow> foldE f xs s = Inr s"
  by (induction xs arbitrary: s) (simp_all add: bindE_def)

lemma launchE_guarded:
  assumes "\<And>idx s. N \<le> idx \<Longrightarrow> thread idx s = Inr s"
  shows "launchE (fullBlocksPerGrid N) thread s = foldE thread [0..<N] s"
proof -
  have "[0..<fullBlocksPerGrid N * blockSize] = [0..<N] @ [N..<fullBlocksPerGrid N * blockSize]"
    using blocks_cover [of N] by (metis le_add_diff_inverse upt_add_eq_append zero_le)
  moreover have "foldE thread [N..<fullBlocksPerGrid N * blockSize] t = Inr t" for t
    by (rule foldE_idle) (simp add: assms)
  ultimately show ?thesis
    by (simp add: launchE_def foldE_append bindE_def split: sum.splits)
qed

lemma fold_slots:
  "N \<le> length xs \<Longrightarrow>
   fold (\<lambda>i ys. ys[i := h i (ys ! i)]) [0..<N] xs = map (\<lambda>i. h i (xs ! i)) [0..<N] @ drop N xs"
proof (induction N)
  case 0
  then show ?case by simp
next
  case (Suc N)
  then have "N < length xs" by simp
  then have "(map (\<lambda>i. h i (xs ! i)) [0..<N] @ drop N xs)[N := h N (xs ! N)]
             = map (\<lambda>i. h i (xs ! i)) [0..<N] @ [h N (xs ! N)] @ drop (Suc N) xs"
    by (simp add: list_update_append Cons_nth_drop_Suc [symmetric])
  moreover have "(map (\<lambda>i. h i (xs ! i)) [0..<N] @ drop N xs) ! N = xs ! N"
    using \<open>N < length xs\<close> by (simp add: nth_append)
  ultimately show ?case using Suc by simp
qed

lemma glm_dot_nonneg: "0 \<le> glm_dot v v"
  by (simp add: glm_dot_def)

lemma glm_length_nonneg: "0 \<le> glm_length v"
  by (simp add: glm_length_def glm_dot_nonneg)

lemma glm_length_vscale: "glm_length (vscale v s) = \<bar>s\<bar> * glm_length v"
proof -
  have "glm_dot (vscale v s) (vscale v s) = s\<^sup>2 * glm_dot v v"
    by (simp add: glm_dot_def power2_eq_square algebra_simps)
  then show ?thesis
    by (simp add: glm_length_def real_sqrt_mult)
qed

lemma glm_length_normalize: "0 < glm_length v \<Longrightarrow> glm_length (glm_normalize v) = 1"
  by (simp add: glm_normalize_def glm_length_vscale) (simp add: glm_length_def)

lemma clampGrid_eq_clampNaive: "clampGrid v = clampNaive v"
  by (simp add: clampGrid_def clampNaive_def)

lemma clampNaive_rescaled:
  assumes "maxSpeed < glm_length v"
  shows "clampNaive v = vscale v (maxSpeed / glm_length v)" "glm_length (clampNaive v) = maxSpeed"
proof -
  have pos: "0 < glm_length v" using assms by (simp add: maxSpeed_def)
  show "clampNaive v = vscale v (maxSpeed / glm_length v)"
    using assms by (simp add: clampNaive_def glm_normalize_def vec3_eq_iff glm_length_def)
  show "glm_length (clampNaive v) = maxSpeed"
    using assms pos by (simp add: clampNaive_def glm_length_vscale glm_length_normalize maxSpeed_def)
qed

lemma clampNaive_le: "glm_length (clampNaive v) \<le> maxSpeed"
  using clampNaive_rescaled(2) [of v] by (cases "maxSpeed < glm_length v") (simp_all add: clampNaive_def)

lemma bindE_simps [simp]:
  "bindE (Inr x) f = f x" "bindE (Inl e) f = Inl e"
  by (simp_all add: bindE_def)

lemma bindE_eq_Inr: "(bindE m f = Inr y) = (\<exists>x. m = Inr x \<and> f x = Inr y)"
  by (cases m) simp_all


lemma upt2: "[0..<2] = [0, Suc 0]" by (simp add: upt_rec)

lemma sc1: "naiveRule1 2 0 scenarioPos = (Vec3 1 0 0, 1)"
  by (simp add: naiveRule1_def scenarioPos_def upt2 glm_distance_def glm_length_def glm_dot_def
      rule1Distance_def plus_vec3_def zero_vec3_def minus_vec3_def)

lemma sc2: "naiveRule2 2 0 scenarioPos = Vec3 (- 1) 0 0"
  by (simp add: naiveRule2_def scenarioPos_def upt2 glm_distance_def glm_length_def glm_dot_def
      rule2Distance_def plus_vec3_def zero_vec3_def minus_vec3_def)

lemma sc3: "naiveRule3 2 0 scenarioPos scenarioVel = (Vec3 0 0 0, 1)"
  by (simp add: naiveRule3_def scenarioPos_def scenarioVel_def upt2 glm_distance_def glm_length_def glm_dot_def
      rule3Distance_def plus_vec3_def zero_vec3_def minus_vec3_def)

lemma sc4: "computeVelocityChange 2 0 scenarioPos scenarioVel = Vec3 (- 9 / 100) 0 0"
  unfolding computeVelocityChange_def sc1 sc2 sc3
  by (simp add: rule1Term_def rule2Term_def rule3Term_def averaged_def scenarioPos_def scenarioVel_def
      vec3_eq_iff rule1Scale_def rule2Scale_def rule3Scale_def)

lemma sc5: "glm_length (Vec3 (- 9 / 100) 0 0) = 9 / 100"
proof -
  have "glm_dot (Vec3 (- 9 / 100) 0 0) (Vec3 (- 9 / 100) 0 0) = (9 / 100)\<^sup>2"
    by (simp add: glm_dot_def power2_eq_square)
  then show ?thesis by (simp add: glm_length_def)
qed

lemma naive_kernel_slots:
  assumes "length vel2 = N"
  shows "launch (fullBlocksPerGrid N) (kernUpdateVelocityBruteForce N pos vel1) vel2
         = map (\<lambda>i. clampNaive (computeVelocityChange N i pos vel1)) [0..<N]"
proof -
  have "launch (fullBlocksPerGrid N) (kernUpdateVelocityBruteForce N pos vel1) vel2
        = fold (kernUpdateVelocityBruteForce N pos vel1) [0..<N] vel2"
    by (rule launch_guarded) (simp add: kernUpdateVelocityBruteForce_def)
  also have "\<dots> = fold (\<lambda>i ys. ys[i := clampNaive (computeVelocityChange N i pos vel1)]) [0..<N] vel2"
    by (rule fold_cong) (auto simp add: kernUpdateVelocityBruteForce_def intro!: ext)
  also have "\<dots> = map (\<lambda>i. clampNaive (computeVelocityChange N i pos vel1)) [0..<N]"
    using fold_slots [of N vel2 "\<lambda>i _. clampNaive (computeVelocityChange N i pos vel1)"] assms
    by simp
  finally show ?thesis .
qed

lemma updatePos_kernel_slots:
  assumes "length pos = N"
  shows "launch (fullBlocksPerGrid N) (kernUpdatePos N dt vel) pos
         = map (\<lambda>i. updatePos dt (pos ! i) (vel ! i)) [0..<N]"
proof -
  have "launch (fullBlocksPerGrid N) (kernUpdatePos N dt vel) pos
        = fold (kernUpdatePos N dt vel) [0..<N] pos"
    by (rule launch_guarded) (simp add: kernUpdatePos_def)
  also have "\<dots> = fold (\<lambda>i ys. ys[i := updatePos dt (ys ! i) (vel ! i)]) [0..<N] pos"
    by (rule fold_cong) (auto simp add: kernUpdatePos_def intro!: ext)
  also have "\<dots> = map (\<lambda>i. updatePos dt (pos ! i) (vel ! i)) [0..<N]"
    using fold_slots [of N pos "\<lambda>i p. updatePos dt p (vel ! i)"] assms by simp
  finally show ?thesis .
qed

lemma naive_step_vel:
  "length (dev_vel2 s) = numObjects s \<Longrightarrow>
   dev_vel1 (stepSimulationNaive dt s)
   = map (\<lambda>i. clampNaive (computeVelocityChange (numObjects s) i (dev_pos s) (dev_vel1 s)))
       [0..<numObjects s]"
  by (simp add: stepSimulationNaive_def swapAndMove_def Let_def naive_kernel_slots)

lemma swapAndMove_pos:
  "length (dev_pos s) = numObjects s \<Longrightarrow>
   dev_pos (swapAndMove dt s)
   = map (\<lambda>i. updatePos dt (dev_pos s ! i) (dev_vel2 s ! i)) [0..<numObjects s]"
  by (simp add: swapAndMove_def Let_def updatePos_kernel_slots)

lemma swapAndMove_fields [simp]:
  "dev_vel1 (swapAndMove dt s) = dev_vel2 s"
  "dev_vel2 (swapAndMove dt s) = dev_vel1 s"
  "numObjects (swapAndMove dt s) = numObjects s"
  by (simp_all add: swapAndMove_def Let_def)

lemma wrap_coordinate:
  "wrapHigh (wrapLow c)
   = (if c < - scene_scale then scene_scale else if c > scene_scale then - scene_scale else c)"
  by (simp add: wrapHigh_def wrapLow_def scene_scale_def)

lemma foldE_slots_Inr:
  assumes "foldE (\<lambda>i ys. bindE (f i) (\<lambda>w. Inr (ys[i := g w]))) [0..<N] xs = Inr ys"
  shows "length ys = length xs \<and> (\<forall>i<N. \<exists>w. f i = Inr w \<and> (i < length xs \<longrightarrow> ys ! i = g w))"
  using assms
proof (induction N arbitrary: ys)
  case 0
  then show ?case by simp
next
  case (Suc N)
  from Suc.prems obtain zs w where zs: "foldE (\<lambda>i ys. bindE (f i) (\<lambda>w. Inr (ys[i := g w]))) [0..<N] xs = Inr zs"
    and w: "f N = Inr w" and ys: "ys = zs[N := g w]"
    by (auto simp add: foldE_append bindE_eq_Inr)
  from Suc.IH [OF zs] show ?case using w ys
    by (auto simp add: less_Suc_eq nth_list_update)
qed

lemma foldE_slots:
  assumes "\<And>i. i < N \<Longrightarrow> f i = Inr (v i)"
  shows "foldE (\<lambda>i ys. bindE (f i) (\<lambda>w. Inr (ys[i := g w]))) [0..<N] xs
         = Inr (fold (\<lambda>i ys. ys[i := g (v i)]) [0..<N] xs)"
  using assms by (induction N) (simp_all add: foldE_append)

lemma resetAndLabel_fields [simp]:
  "numObjects (resetAndLabel s) = numObjects s"
  "dev_pos (resetAndLabel s) = dev_pos s"
  "dev_vel1 (resetAndLabel s) = dev_vel1 s"
  "dev_vel2 (resetAndLabel s) = dev_vel2 s"
  "dev_posGridIndices (resetAndLabel s) = dev_posGridIndices s"
  "dev_velGridIndices (resetAndLabel s) = dev_velGridIndices s"
  by (simp_all add: resetAndLabel_def Let_def)

lemma sortAndIdentify_fields:
  assumes "sortAndIdentify srt s = Inr s'"
  shows "numObjects s' = numObjects s" "dev_pos s' = dev_pos s" "dev_vel1 s' = dev_vel1 s"
    "dev_vel2 s' = dev_vel2 s" "dev_posGridIndices s' = dev_posGridIndices s"
    "dev_velGridIndices s' = dev_velGridIndices s"
    "dev_particleGridIndices s' = fst (sort_by_key srt (dev_particleGridIndices s) (dev_particleArrayIndices s))"
    "dev_particleArrayIndices s' = snd (sort_by_key srt (dev_particleGridIndices s) (dev_particleArrayIndices s))"
  using assms by (auto simp add: sortAndIdentify_def Let_def bindE_eq_Inr)

lemma coherentReorder_fields:
  assumes "coherentReorder srt s = Inr s'"
  shows "numObjects s' = numObjects s" "dev_vel2 s' = dev_vel2 s"
  using assms by (auto simp add: coherentReorder_def Let_def bindE_eq_Inr dest: sortAndIdentify_fields)

lemma foldE_cong: "(\<And>x a. x \<in> set xs \<Longrightarrow> f x a = g x a) \<Longrightarrow> foldE f xs a = foldE g xs a"
  by (induction xs arbitrary: a) (simp_all add: bindE_def split: sum.splits)

lemma launchE_slot_kernel:
  assumes "\<And>idx ys. kern idx ys = (if idx < N then bindE (f idx) (\<lambda>w. Inr (ys[idx := g w])) else Inr ys)"
  shows "launchE (fullBlocksPerGrid N) kern xs
         = foldE (\<lambda>i ys. bindE (f i) (\<lambda>w. Inr (ys[i := g w]))) [0..<N] xs"
proof -
  have "launchE (fullBlocksPerGrid N) kern xs = foldE kern [0..<N] xs"
    by (rule launchE_guarded) (simp add: assms)
  also have "\<dots> = foldE (\<lambda>i ys. bindE (f i) (\<lambda>w. Inr (ys[i := g w]))) [0..<N] xs"
    by (rule foldE_cong) (simp add: assms)
  finally show ?thesis .
qed

lemma scattered_kernel_Inr:
  assumes "launchE (fullBlocksPerGrid N)
             (kernUpdateVelNeighborSearchScattered N res gm icw starts ends pai pos vel1) vel2 = Inr ys"
    and "length vel2 = N" and "i < N"
  shows "\<exists>raw. scatteredVelocity res gm icw starts ends pai pos vel1 i = Inr raw \<and> ys ! i = clampGrid raw"
proof -
  have "launchE (fullBlocksPerGrid N)
          (kernUpdateVelNeighborSearchScattered N res gm icw starts ends pai pos vel1) vel2
        = foldE (\<lambda>i ys. bindE (scatteredVelocity res gm icw starts ends pai pos vel1 i)
                                 (\<lambda>w. Inr (ys[i := clampGrid w]))) [0..<N] vel2"
    by (rule launchE_slot_kernel) (simp add: kernUpdateVelNeighborSearchScattered_def)
  then show ?thesis
    using foldE_slots_Inr [of "scatteredVelocity res gm icw starts ends pai pos vel1" clampGrid N vel2 ys] assms
    by auto
qed

lemma coherent_kernel_Inr:
  assumes "launchE (fullBlocksPerGrid N)
             (kernUpdateVelNeighborSearchCoherent N res gm icw starts ends pos vel1) vel2 = Inr ys"
    and "length vel2 = N" and "i < N"
  shows "\<exists>raw. coherentVelocity res gm icw starts ends pos vel1 i = Inr raw \<and> ys ! i = clampGrid raw"
proof -
  have "launchE (fullBlocksPerGrid N)
          (kernUpdateVelNeighborSearchCoherent N res gm icw starts ends pos vel1) vel2
        = foldE (\<lambda>i ys. bindE (coherentVelocity res gm icw starts ends pos vel1 i)
                                 (\<lambda>w. Inr (ys[i := clampGrid w]))) [0..<N] vel2"
    by (rule launchE_slot_kernel) (simp add: kernUpdateVelNeighborSearchCoherent_def)
  then show ?thesis
    using foldE_slots_Inr [of "coherentVelocity res gm icw starts ends pos vel1" clampGrid N vel2 ys] assms
    by auto
qed

section \<open>The rules, the scenario and the position update\<close>

lemma allocated_simOf: "length vel = length pos \<Longrightarrow> allocated (simOf pos vel)"
  by (simp add: allocated_def simOf_def)

lemma simOf_fields [simp]:
  "numObjects (simOf pos vel) = length pos" "dev_pos (simOf pos vel) = pos"
  "dev_vel1 (simOf pos vel) = vel" "dev_vel2 (simOf pos vel) = replicate (length pos) 0"
  by (simp_all add: simOf_def)

text \<open>
  Claim C4. Two boids at rest, A at the origin and B at \<open>(1, 0, 0)\<close>, with the radii
  5, 3, 5, the scales 0.01, 0.1, 0.1 and the maximal speed 1: for A, rule 1 adds
  \<open>(0.01, 0, 0)\<close>, rule 2 adds \<open>(-0.1, 0, 0)\<close>, rule 3 adds nothing, the velocity before
  the clamp is \<open>(-0.09, 0, 0)\<close> of length 0.09, and the brute-force step leaves A with
  exactly that velocity.
\<close>

theorem two_boid_scenario:
  "rule1Distance = 5 \<and> rule2Distance = 3 \<and> rule3Distance = 5 \<and>
   rule1Scale = 1 / 100 \<and> rule2Scale = 1 / 10 \<and> rule3Scale = 1 / 10 \<and> maxSpeed = 1 \<and>
   rule1Term (naiveRule1 2 0 scenarioPos) (scenarioPos ! 0) = Vec3 (1 / 100) 0 0 \<and>
   rule2Term (naiveRule2 2 0 scenarioPos) = Vec3 (- 1 / 10) 0 0 \<and>
   rule3Term (naiveRule3 2 0 scenarioPos scenarioVel) = Vec3 0 0 0 \<and>
   computeVelocityChange 2 0 scenarioPos scenarioVel = Vec3 (- 9 / 100) 0 0 \<and>
   glm_length (computeVelocityChange 2 0 scenarioPos scenarioVel) = 9 / 100 \<and>
   dev_vel1 (stepSimulationNaive dt (simOf scenarioPos scenarioVel)) ! 0 = Vec3 (- 9 / 100) 0 0"
proof -
  have t1: "rule1Term (naiveRule1 2 0 scenarioPos) (scenarioPos ! 0) = Vec3 (1 / 100) 0 0"
    unfolding sc1 by (simp add: rule1Term_def averaged_def scenarioPos_def rule1Scale_def vec3_eq_iff)
  have t2: "rule2Term (naiveRule2 2 0 scenarioPos) = Vec3 (- 1 / 10) 0 0"
    unfolding sc2 by (simp add: rule2Term_def rule2Scale_def vec3_eq_iff)
  have t3: "rule3Term (naiveRule3 2 0 scenarioPos scenarioVel) = Vec3 0 0 0"
    unfolding sc3 by (simp add: rule3Term_def averaged_def rule3Scale_def vec3_eq_iff)
  have len: "glm_length (computeVelocityChange 2 0 scenarioPos scenarioVel) = 9 / 100"
    unfolding sc4 by (rule sc5)
  have "length scenarioPos = 2" by (simp add: scenarioPos_def)
  then have "dev_vel1 (stepSimulationNaive dt (simOf scenarioPos scenarioVel)) ! 0
        = clampNaive (computeVelocityChange 2 0 scenarioPos scenarioVel)"
    by (simp add: naive_step_vel upt2)
  also have "\<dots> = Vec3 (- 9 / 100) 0 0"
    unfolding clampNaive_def len by (simp add: maxSpeed_def sc4)
  finally show ?thesis
    using t1 t2 t3 len
    by (simp add: sc4 rule1Distance_def rule2Distance_def rule3Distance_def rule1Scale_def
        rule2Scale_def rule3Scale_def maxSpeed_def)
qed

lemma upt1: "[0..<1] = [0]" by simp

text \<open>
  Claim C2, on the code. A single boid at \<open>(10, 0, 0)\<close>, at rest, has no neighbour within
  any radius. Rules 2 and 3 add nothing, but rule 1 subtracts the boid's own position from
  the zero vector that no neighbour was added to, and adds \<open>(-0.1, 0, 0)\<close>: after one
  brute-force step of 0.2 seconds the boid moves at \<open>(-0.1, 0, 0)\<close> and stands at
  \<open>(9.98, 0, 0)\<close>.
\<close>

theorem lone_boid_drifts:
  "naiveRule1 1 0 lonePos = (0, 0) \<and>
   rule1Term (naiveRule1 1 0 lonePos) (lonePos ! 0) = Vec3 (- 1 / 10) 0 0 \<and>
   rule2Term (naiveRule2 1 0 lonePos) = 0 \<and>
   rule3Term (naiveRule3 1 0 lonePos loneVel) = 0 \<and>
   dev_vel1 (stepSimulationNaive (1 / 5) (simOf lonePos loneVel)) ! 0 = Vec3 (- 1 / 10) 0 0 \<and>
   dev_pos (stepSimulationNaive (1 / 5) (simOf lonePos loneVel)) ! 0 = Vec3 (499 / 50) 0 0"
proof -
  have r1: "naiveRule1 1 0 lonePos = (0, 0)"
    by (simp add: naiveRule1_def)
  have r2: "naiveRule2 1 0 lonePos = 0"
    by (simp add: naiveRule2_def)
  have r3: "naiveRule3 1 0 lonePos loneVel = (0, 0)"
    by (simp add: naiveRule3_def)
  have t1: "rule1Term (naiveRule1 1 0 lonePos) (lonePos ! 0) = Vec3 (- 1 / 10) 0 0"
    unfolding r1 by (simp add: rule1Term_def averaged_def lonePos_def rule1Scale_def vec3_eq_iff)
  have t2: "rule2Term (naiveRule2 1 0 lonePos) = 0"
    unfolding r2 by (simp add: rule2Term_def vec3_eq_iff)
  have t3: "rule3Term (naiveRule3 1 0 lonePos loneVel) = 0"
    unfolding r3 by (simp add: rule3Term_def averaged_def vec3_eq_iff)
  have raw: "computeVelocityChange 1 0 lonePos loneVel = Vec3 (- 1 / 10) 0 0"
    unfolding computeVelocityChange_def Let_def t1 t2 t3
    by (simp add: loneVel_def vec3_eq_iff)
  have "glm_dot (Vec3 (- 1 / 10) 0 0) (Vec3 (- 1 / 10) 0 0) = (1 / 10)\<^sup>2"
    by (simp add: glm_dot_def power2_eq_square)
  then have len: "glm_length (Vec3 (- 1 / 10) 0 0) = 1 / 10"
    by (simp add: glm_length_def real_sqrt_divide)
  have cl: "clampNaive (computeVelocityChange 1 0 lonePos loneVel) = Vec3 (- 1 / 10) 0 0"
    unfolding raw clampNaive_def len by (simp add: maxSpeed_def)
  have l1: "length lonePos = 1" by (simp add: lonePos_def)
  have v: "dev_vel1 (stepSimulationNaive (1 / 5) (simOf lonePos loneVel)) = [Vec3 (- 1 / 10) 0 0]"
    using l1 cl by (simp add: naive_step_vel)
  have "dev_pos (stepSimulationNaive (1 / 5) (simOf lonePos loneVel)) ! 0
        = updatePos (1 / 5) (Vec3 10 0 0) (Vec3 (- 1 / 10) 0 0)"
    unfolding stepSimulationNaive_def
    using l1 cl by (simp add: swapAndMove_pos naive_kernel_slots lonePos_def)
  also have "\<dots> = Vec3 (499 / 50) 0 0"
    by (simp add: updatePos_def Let_def wrapLow_def wrapHigh_def scene_scale_def vec3_eq_iff)
  finally show ?thesis using r1 t1 t2 t3 v by simp
qed

text \<open>
  Claim C10. In every strategy the velocity before the clamp is the boid's old velocity
  plus the terms of the three rules: the brute-force helper returns that sum, and each
  grid kernel, once its reads of the cell table have succeeded, returns that sum over
  the results of its three loop nests.
\<close>

theorem velocity_starts_from_old:
  "computeVelocityChange N iSelf pos vel
     = vel ! iSelf + (rule1Term (naiveRule1 N iSelf pos) (pos ! iSelf)
                      + rule2Term (naiveRule2 N iSelf pos)
                      + rule3Term (naiveRule3 N iSelf pos vel)) \<and>
   scatteredVelocity res gm icw starts ends pai pos vel idx
     = bindE (neighborCells res gm icw starts (pos ! idx)) (\<lambda>cells.
       bindE (forCells starts ends cells
                (visitScattered pai pos idx rule1Distance (accumulateRule1 pos)) (0, 0)) (\<lambda>rule1.
       bindE (forCells starts ends cells
                (visitScattered pai pos idx rule2Distance (accumulateRule2 pos (pos ! idx))) 0) (\<lambda>center.
       bindE (forCells starts ends cells
                (visitScattered pai pos idx rule3Distance (accumulateRule3 vel)) (0, 0)) (\<lambda>rule3.
       Inr (vel ! idx + (rule1Term rule1 (pos ! idx) + rule2Term center + rule3Term rule3)))))) \<and>
   coherentVelocity res gm icw starts ends pos vel idx
     = bindE (neighborCells res gm icw starts (pos ! idx)) (\<lambda>cells.
       bindE (forCells starts ends cells
                (visitCoherent pos idx rule1Distance (accumulateRule1 pos)) (0, 0)) (\<lambda>rule1.
       bindE (forCells starts ends cells
                (visitCoherent pos idx rule2Distance (accumulateRule2 pos (pos ! idx))) 0) (\<lambda>center.
       bindE (forCells starts ends cells
                (visitCoherent pos idx rule3Distance (accumulateRule3 vel)) (0, 0)) (\<lambda>rule3.
       Inr (vel ! idx + (rule1Term rule1 (pos ! idx) + rule2Term center + rule3Term rule3))))))"
  by (simp add: computeVelocityChange_def scatteredVelocity_def coherentVelocity_def Let_def
      add.assoc)

text \<open>
  Claim C6. The position kernel leaves boid \<open>i\<close> at its old position plus \<open>dt\<close> times its
  velocity, where each coordinate strictly below \<open>-scene_scale\<close> is replaced by
  \<open>scene_scale\<close>, each coordinate strictly above \<open>scene_scale\<close> by \<open>-scene_scale\<close>, and
  any other coordinate (one equal to a bound included) is kept.
\<close>

theorem position_update_wraps:
  assumes "length pos = N" and "i < N"
  shows "launch (fullBlocksPerGrid N) (kernUpdatePos N dt vel) pos ! i
         = (let moved = pos ! i + vscale (vel ! i) dt;
                wrap = (\<lambda>c. if c < - scene_scale then scene_scale
                             else if c > scene_scale then - scene_scale else c)
            in Vec3 (wrap (vx moved)) (wrap (vy moved)) (wrap (vz moved)))"
  using assms by (simp add: updatePos_kernel_slots updatePos_def Let_def wrap_coordinate)

theorem position_update_wraps_witness:
  "length [Vec3 95 100 (- 100)] = 1 \<and> (0::nat) < 1 \<and>
   launch (fullBlocksPerGrid 1) (kernUpdatePos 1 1 [Vec3 10 0 (- 1)]) [Vec3 95 100 (- 100)] ! 0
     = Vec3 (- 100) 100 100"
  using position_update_wraps [of "[Vec3 95 100 (- 100)]" 1 0 1 "[Vec3 10 0 (- 1)]"]
  by (simp add: Let_def scene_scale_def vec3_eq_iff)

section \<open>Neighbour cells of a position\<close>

lemma grid_values:
  "gridCellWidth = 10" "halfSideCount = 11" "gridSideCount = 22" "gridCellCount = 10648"
  "gridInverseCellWidth = 13421773 / 134217728" "gridMinimum = Vec3 (- 110) (- 110) (- 110)"
proof -
  show w: "gridCellWidth = 10"
    by (simp add: gridCellWidth_def rule1Distance_def rule2Distance_def rule3Distance_def)
  show h: "halfSideCount = 11"
    by (simp add: halfSideCount_def w scene_scale_def c_int_cast_def)
  show s: "gridSideCount = 22" by (simp add: gridSideCount_def h)
  show "gridCellCount = 10648" by (simp add: gridCellCount_def s)
  show "gridInverseCellWidth = 13421773 / 134217728"
    unfolding gridInverseCellWidth_def w by (rule float32_values)
  show "gridMinimum = Vec3 (- 110) (- 110) (- 110)"
    by (simp add: gridMinimum_def halfGridWidth_def w h)
qed

lemma c_int_cast_of_int [simp]: "c_int_cast (of_int n) = n"
  by (simp add: c_int_cast_def)

lemma gridIndex3D_sel [simp]:
  "ix (gridIndex3D p gm icw) = \<lfloor>float32 (float32 (vx p - vx gm) * icw)\<rfloor>"
  "iy (gridIndex3D p gm icw) = \<lfloor>float32 (float32 (vy p - vy gm) * icw)\<rfloor>"
  "iz (gridIndex3D p gm icw) = \<lfloor>float32 (float32 (vz p - vz gm) * icw)\<rfloor>"
  by (simp_all add: gridIndex3D_def to_ivec3_def glm_floor_def vscale32_def vminus32_def)

text \<open>The bias of one axis, from the scaled coordinate.\<close>

lemma c_round_cast: "c_int_cast (c_round u) = (if u < 0 then \<lceil>u - 1 / 2\<rceil> else \<lfloor>u + 1 / 2\<rfloor>)"
  by (simp add: c_round_def)

lemma biasAlongAxes_sel:
  "ix (biasAlongAxes p gm icw)
     = (if c_int_cast (c_round (float32 (float32 (vx p - vx gm) * icw)))
           \<noteq> \<lfloor>float32 (float32 (vx p - vx gm) * icw)\<rfloor> then 1 else - 1)"
  "iy (biasAlongAxes p gm icw)
     = (if c_int_cast (c_round (float32 (float32 (vy p - vy gm) * icw)))
           \<noteq> \<lfloor>float32 (float32 (vy p - vy gm) * icw)\<rfloor> then 1 else - 1)"
  "iz (biasAlongAxes p gm icw)
     = (if c_int_cast (c_round (float32 (float32 (vz p - vz gm) * icw)))
           \<noteq> \<lfloor>float32 (float32 (vz p - vz gm) * icw)\<rfloor> then 1 else - 1)"
  by (simp_all add: biasAlongAxes_def Let_def to_ivec3_def glm_round_def vscale32_def vminus32_def)

text \<open>
  The rounded coordinate differs from the floored one in the upper half of a cell.
\<close>

lemma round_differs_upper_half:
  assumes "0 \<le> u"
  shows "(c_int_cast (c_round u) \<noteq> \<lfloor>u\<rfloor>) = (1 / 2 \<le> u - of_int \<lfloor>u\<rfloor>)"
proof -
  have "c_int_cast (c_round u) = \<lfloor>u + 1 / 2\<rfloor>" using assms by (simp add: c_round_cast)
  moreover have "(\<lfloor>u + 1 / 2\<rfloor> \<noteq> \<lfloor>u\<rfloor>) = (1 / 2 \<le> u - of_int \<lfloor>u\<rfloor>)"
  proof
    assume "\<lfloor>u + 1 / 2\<rfloor> \<noteq> \<lfloor>u\<rfloor>"
    moreover have "\<lfloor>u\<rfloor> \<le> \<lfloor>u + 1 / 2\<rfloor>" by (rule floor_mono) simp
    ultimately have "\<lfloor>u\<rfloor> + 1 \<le> \<lfloor>u + 1 / 2\<rfloor>" by simp
    then have "of_int (\<lfloor>u\<rfloor> + 1) \<le> u + 1 / 2" by (simp only: le_floor_iff)
    then show "1 / 2 \<le> u - of_int \<lfloor>u\<rfloor>" by simp
  next
    assume "1 / 2 \<le> u - of_int \<lfloor>u\<rfloor>"
    then have "of_int (\<lfloor>u\<rfloor> + 1) \<le> u + 1 / 2" by simp
    then have "\<lfloor>u\<rfloor> + 1 \<le> \<lfloor>u + 1 / 2\<rfloor>" by (simp only: le_floor_iff)
    then show "\<lfloor>u + 1 / 2\<rfloor> \<noteq> \<lfloor>u\<rfloor>" by simp
  qed
  ultimately show ?thesis by simp
qed

lemma candidateGridPos_list:
  "candidateGridPos g b =
     [IVec3 (ix g) (iy g) (iz g), IVec3 (ix g + ix b) (iy g) (iz g),
      IVec3 (ix g) (iy g + iy b) (iz g), IVec3 (ix g + ix b) (iy g + iy b) (iz g),
      IVec3 (ix g) (iy g) (iz g + iz b), IVec3 (ix g + ix b) (iy g) (iz g + iz b),
      IVec3 (ix g) (iy g + iy b) (iz g + iz b), IVec3 (ix g + ix b) (iy g + iy b) (iz g + iz b)]"
  by (simp add: candidateGridPos_def)

lemma foldE_valid:
  "foldE (\<lambda>grid_idx lst. bindE (readAt starts grid_idx)
            (\<lambda>start. Inr (if start \<ge> 0 then lst @ [grid_idx] else lst))) cands acc
   = (if list_all (\<lambda>c. 0 \<le> c \<and> c < int (length starts)) cands
      then Inr (acc @ filter (\<lambda>c. starts ! nat c \<ge> 0) cands) else Inl OutOfBounds)"
proof (induction cands arbitrary: acc)
  case Nil
  then show ?case by simp
next
  case (Cons c cands)
  show ?case
  proof (cases "0 \<le> c \<and> c < int (length starts)")
    case True
    then have "readAt starts c = Inr (starts ! nat c)" by (simp add: readAt_def)
    then show ?thesis using True by (simp add: Cons.IH)
  next
    case False
    then have "readAt starts c = Inl OutOfBounds" by (auto simp add: readAt_def)
    then show ?thesis using False by auto
  qed
qed

lemma validNeighborCells_eq:
  "validNeighborCells starts cands
   = (if list_all (\<lambda>c. 0 \<le> c \<and> c < int (length starts)) cands
      then Inr (filter (\<lambda>c. starts ! nat c \<ge> 0) cands) else Inl OutOfBounds)"
  by (simp add: validNeighborCells_def foldE_valid)

lemma length_candidateCells [simp]: "length (candidateCells g b res) = 8"
  by (simp add: candidateCells_def candidateGridPos_list)

lemma candidateCells_list:
  "candidateCells g b res =
     [gridIndex3Dto1D (ix g) (iy g) (iz g) res,
      gridIndex3Dto1D (ix g + ix b) (iy g) (iz g) res,
      gridIndex3Dto1D (ix g) (iy g + iy b) (iz g) res,
      gridIndex3Dto1D (ix g + ix b) (iy g + iy b) (iz g) res,
      gridIndex3Dto1D (ix g) (iy g) (iz g + iz b) res,
      gridIndex3Dto1D (ix g + ix b) (iy g) (iz g + iz b) res,
      gridIndex3Dto1D (ix g) (iy g + iy b) (iz g + iz b) res,
      gridIndex3Dto1D (ix g + ix b) (iy g + iy b) (iz g + iz b) res]"
  by (simp add: candidateCells_def candidateGridPos_list)

lemma neighborCells_eq:
  "neighborCells res gm icw starts p
   = (if list_all (\<lambda>c. 0 \<le> c \<and> c < int (length starts))
           (candidateCells (gridIndex3D p gm icw) (biasAlongAxes p gm icw) res)
      then Inr (filter (\<lambda>c. 0 \<le> starts ! nat c)
                  (candidateCells (gridIndex3D p gm icw) (biasAlongAxes p gm icw) res))
      else Inl OutOfBounds)"
  by (simp add: neighborCells_def validNeighborCells_eq)

text \<open>
  Claim C8. Let \<open>ux\<close>, \<open>uy\<close>, \<open>uz\<close> be the scaled coordinates of a position as the kernels
  compute them. The boid's own cell has the floors of these as coordinates. The bias of an
  axis is \<open>1\<close> exactly when the rounded coordinate differs from the floored one, which for
  a coordinate that is not negative is the upper half of the cell, and \<open>-1\<close> otherwise.
  The candidate cells are the eight cells whose coordinate on each axis is the own one or
  the own one plus the bias, in the order of the loop nest. The selection fails when one
  of the eight lies outside the start array, and otherwise returns the candidates whose
  start is not negative, in that order: at most eight cells, all among the eight
  candidates, none with the start \<open>-1\<close>.
\<close>

theorem neighbor_cell_selection:
  fixes p gm :: vec3 and icw :: real and res :: int and starts :: "int list"
  defines "ux \<equiv> float32 (float32 (vx p - vx gm) * icw)"
    and "uy \<equiv> float32 (float32 (vy p - vy gm) * icw)"
    and "uz \<equiv> float32 (float32 (vz p - vz gm) * icw)"
  defines "dx \<equiv> (if c_int_cast (c_round ux) \<noteq> \<lfloor>ux\<rfloor> then 1 else - 1 :: int)"
    and "dy \<equiv> (if c_int_cast (c_round uy) \<noteq> \<lfloor>uy\<rfloor> then 1 else - 1 :: int)"
    and "dz \<equiv> (if c_int_cast (c_round uz) \<noteq> \<lfloor>uz\<rfloor> then 1 else - 1 :: int)"
  defines "cells8 \<equiv>
     [\<lfloor>ux\<rfloor> + \<lfloor>uy\<rfloor> * res + \<lfloor>uz\<rfloor> * res * res,
      (\<lfloor>ux\<rfloor> + dx) + \<lfloor>uy\<rfloor> * res + \<lfloor>uz\<rfloor> * res * res,
      \<lfloor>ux\<rfloor> + (\<lfloor>uy\<rfloor> + dy) * res + \<lfloor>uz\<rfloor> * res * res,
      (\<lfloor>ux\<rfloor> + dx) + (\<lfloor>uy\<rfloor> + dy) * res + \<lfloor>uz\<rfloor> * res * res,
      \<lfloor>ux\<rfloor> + \<lfloor>uy\<rfloor> * res + (\<lfloor>uz\<rfloor> + dz) * res * res,
      (\<lfloor>ux\<rfloor> + dx) + \<lfloor>uy\<rfloor> * res + (\<lfloor>uz\<rfloor> + dz) * res * res,
      \<lfloor>ux\<rfloor> + (\<lfloor>uy\<rfloor> + dy) * res + (\<lfloor>uz\<rfloor> + dz) * res * res,
      (\<lfloor>ux\<rfloor> + dx) + (\<lfloor>uy\<rfloor> + dy) * res + (\<lfloor>uz\<rfloor> + dz) * res * res]"
  shows "gridIndex3D p gm icw = IVec3 \<lfloor>ux\<rfloor> \<lfloor>uy\<rfloor> \<lfloor>uz\<rfloor> \<and>
         biasAlongAxes p gm icw = IVec3 dx dy dz \<and>
         (0 \<le> ux \<longrightarrow> (dx = 1) = (1 / 2 \<le> ux - of_int \<lfloor>ux\<rfloor>)) \<and>
         (0 \<le> uy \<longrightarrow> (dy = 1) = (1 / 2 \<le> uy - of_int \<lfloor>uy\<rfloor>)) \<and>
         (0 \<le> uz \<longrightarrow> (dz = 1) = (1 / 2 \<le> uz - of_int \<lfloor>uz\<rfloor>)) \<and>
         candidateCells (gridIndex3D p gm icw) (biasAlongAxes p gm icw) res = cells8 \<and>
         neighborCells res gm icw starts p
           = (if list_all (\<lambda>c. 0 \<le> c \<and> c < int (length starts)) cells8
              then Inr (filter (\<lambda>c. 0 \<le> starts ! nat c) cells8) else Inl OutOfBounds) \<and>
         (\<forall>cells. neighborCells res gm icw starts p = Inr cells \<longrightarrow>
            length cells \<le> 8 \<and> set cells \<subseteq> set cells8 \<and>
            (\<forall>c \<in> set cells8. (c \<in> set cells) = (0 \<le> starts ! nat c)) \<and>
            (\<forall>c \<in> set cells. 0 \<le> c \<and> c < int (length starts) \<and> starts ! nat c \<noteq> - 1))"
proof -
  have g: "gridIndex3D p gm icw = IVec3 \<lfloor>ux\<rfloor> \<lfloor>uy\<rfloor> \<lfloor>uz\<rfloor>"
    by (simp add: ivec3.expand ux_def uy_def uz_def)
  have b: "biasAlongAxes p gm icw = IVec3 dx dy dz"
    by (simp add: ivec3.expand biasAlongAxes_sel ux_def uy_def uz_def dx_def dy_def dz_def)
  have hx: "(dx = 1) = (1 / 2 \<le> ux - of_int \<lfloor>ux\<rfloor>)" if "0 \<le> ux"
    using round_differs_upper_half [OF that] by (simp add: dx_def)
  have hy: "(dy = 1) = (1 / 2 \<le> uy - of_int \<lfloor>uy\<rfloor>)" if "0 \<le> uy"
    using round_differs_upper_half [OF that] by (simp add: dy_def)
  have hz: "(dz = 1) = (1 / 2 \<le> uz - of_int \<lfloor>uz\<rfloor>)" if "0 \<le> uz"
    using round_differs_upper_half [OF that] by (simp add: dz_def)
  have c: "candidateCells (gridIndex3D p gm icw) (biasAlongAxes p gm icw) res = cells8"
    unfolding g b candidateCells_list by (simp add: cells8_def gridIndex3Dto1D_def)
  have n: "neighborCells res gm icw starts p
           = (if list_all (\<lambda>c. 0 \<le> c \<and> c < int (length starts)) cells8
              then Inr (filter (\<lambda>c. 0 \<le> starts ! nat c) cells8) else Inl OutOfBounds)"
    unfolding neighborCells_eq c by (rule refl)
  have l8: "length cells8 = 8" by (simp add: cells8_def)
  have r: "length cells \<le> 8 \<and> set cells \<subseteq> set cells8 \<and>
            (\<forall>c \<in> set cells8. (c \<in> set cells) = (0 \<le> starts ! nat c)) \<and>
            (\<forall>c \<in> set cells. 0 \<le> c \<and> c < int (length starts) \<and> starts ! nat c \<noteq> - 1)"
    if "neighborCells res gm icw starts p = Inr cells" for cells
  proof -
    from that have ok: "list_all (\<lambda>c. 0 \<le> c \<and> c < int (length starts)) cells8"
      and cells: "cells = filter (\<lambda>c. 0 \<le> starts ! nat c) cells8"
      unfolding n by (simp_all split: if_splits)
    have "length cells \<le> length cells8" unfolding cells by (rule length_filter_le)
    then have "length cells \<le> 8" unfolding l8 .
    moreover have "set cells \<subseteq> set cells8" unfolding cells by (rule filter_is_subset)
    moreover have "(c \<in> set cells) = (0 \<le> starts ! nat c)" if "c \<in> set cells8" for c
      using that unfolding cells by simp
    moreover have "0 \<le> c \<and> c < int (length starts) \<and> starts ! nat c \<noteq> - 1"
      if "c \<in> set cells" for c
    proof -
      from that have m: "c \<in> set cells8" and s: "0 \<le> starts ! nat c" unfolding cells by simp_all
      from ok m have "0 \<le> c \<and> c < int (length starts)" unfolding list_all_iff by (rule bspec)
      with s show ?thesis by simp
    qed
    ultimately show ?thesis by blast
  qed
  from g b hx hy hz c n r show ?thesis by blast
qed

text \<open>
  In a grid of two cells per side with cells of width 1, the position
  \<open>(0.625, 1.375, 0.75)\<close> lies in the cell \<open>(0, 1, 0)\<close>, in the upper half along \<open>x\<close> and
  \<open>z\<close> and in the lower half along \<open>y\<close>. The eight candidates are all the cells of the grid;
  of these the cells 2, 0 and 7 hold boids.
\<close>

theorem neighbor_cell_selection_witness:
  "gridIndex3D (Vec3 (5 / 8) (11 / 8) (3 / 4)) (Vec3 0 0 0) 1 = IVec3 0 1 0 \<and>
   biasAlongAxes (Vec3 (5 / 8) (11 / 8) (3 / 4)) (Vec3 0 0 0) 1 = IVec3 1 (- 1) 1 \<and>
   candidateCells (gridIndex3D (Vec3 (5 / 8) (11 / 8) (3 / 4)) (Vec3 0 0 0) 1)
     (biasAlongAxes (Vec3 (5 / 8) (11 / 8) (3 / 4)) (Vec3 0 0 0) 1) 2
     = [2, 3, 0, 1, 6, 7, 4, 5] \<and>
   neighborCells 2 (Vec3 0 0 0) 1 sparseStarts (Vec3 (5 / 8) (11 / 8) (3 / 4)) = Inr [2, 0, 7] \<and>
   length [2, 0, 7 :: int] \<le> 8 \<and>
   sparseStarts ! nat 2 \<noteq> - 1 \<and> sparseStarts ! nat 0 \<noteq> - 1 \<and> sparseStarts ! nat 7 \<noteq> - 1"
proof -
  have f: "float32 (5 / 8) = 5 / 8" "float32 (11 / 8) = 11 / 8" "float32 (3 / 4) = 3 / 4"
  proof -
    show "float32 (5 / 8) = 5 / 8"
      by (rule float32_exact [of "- 1" _ 10485760]) (simp_all add: power_int_minus_divide)
    show "float32 (11 / 8) = 11 / 8"
      by (rule float32_exact [of 0 _ 11534336]) (simp_all add: power_int_minus_divide)
    show "float32 (3 / 4) = 3 / 4"
      by (rule float32_exact [of "- 1" _ 12582912]) (simp_all add: power_int_minus_divide)
  qed
  note T = neighbor_cell_selection [of "Vec3 (5 / 8) (11 / 8) (3 / 4)" "Vec3 0 0 0" 1 2 sparseStarts]
  have g: "gridIndex3D (Vec3 (5 / 8) (11 / 8) (3 / 4)) (Vec3 0 0 0) 1 = IVec3 0 1 0"
    using T [THEN conjunct1] by (simp add: f)
  have b: "biasAlongAxes (Vec3 (5 / 8) (11 / 8) (3 / 4)) (Vec3 0 0 0) 1 = IVec3 1 (- 1) 1"
    using T [THEN conjunct2, THEN conjunct1] by (simp add: f c_round_cast)
  have c: "candidateCells (gridIndex3D (Vec3 (5 / 8) (11 / 8) (3 / 4)) (Vec3 0 0 0) 1)
     (biasAlongAxes (Vec3 (5 / 8) (11 / 8) (3 / 4)) (Vec3 0 0 0) 1) 2
     = [2, 3, 0, 1, 6, 7, 4, 5]"
    using T [THEN conjunct2, THEN conjunct2, THEN conjunct2, THEN conjunct2, THEN conjunct2,
             THEN conjunct1]
    by (simp add: f c_round_cast)
  have n: "neighborCells 2 (Vec3 0 0 0) 1 sparseStarts (Vec3 (5 / 8) (11 / 8) (3 / 4)) = Inr [2, 0, 7]"
    using T [THEN conjunct2, THEN conjunct2, THEN conjunct2, THEN conjunct2, THEN conjunct2,
             THEN conjunct2, THEN conjunct1]
    by (simp add: f c_round_cast sparseStarts_def)
  note R = T [THEN conjunct2, THEN conjunct2, THEN conjunct2, THEN conjunct2, THEN conjunct2,
             THEN conjunct2, THEN conjunct2, rule_format, OF n]
  from R have l: "length [2, 0, 7 :: int] \<le> 8" by (rule conjunct1)
  note R [THEN conjunct2, THEN conjunct2, THEN conjunct2]
  then have s: "sparseStarts ! nat 2 \<noteq> - 1 \<and> sparseStarts ! nat 0 \<noteq> - 1 \<and> sparseStarts ! nat 7 \<noteq> - 1"
    by simp
  from g b c n l s show ?thesis by (intro conjI) simp_all
qed

text \<open>
  Inside the scene the scaled coordinate lies between 1 and 21 also after the two
  roundings: rounding is monotone, and 10, 210, 1 and 21 are binary32 numbers.
\<close>

lemma scaled_in_grid:
  assumes "- 100 \<le> c" and "c \<le> 100"
  shows "1 \<le> float32 (float32 (c - (- 110)) * (13421773 / 134217728))"
    and "float32 (float32 (c - (- 110)) * (13421773 / 134217728)) \<le> 21"
proof -
  define t where "t = float32 (c - (- 110))"
  have "float32 10 \<le> float32 (c - (- 110))" using assms(1) by (intro float32_mono) simp_all
  then have lo: "10 \<le> t" by (simp add: t_def float32_values)
  have "float32 (c - (- 110)) \<le> float32 210" using assms by (intro float32_mono) simp_all
  then have hi: "t \<le> 210" by (simp add: t_def float32_values)
  have "float32 (10 * (13421773 / 134217728)) \<le> float32 (t * (13421773 / 134217728))"
    using lo by (intro float32_mono) simp_all
  then show "1 \<le> float32 (float32 (c - (- 110)) * (13421773 / 134217728))"
    unfolding float32_values t_def .
  have "float32 (t * (13421773 / 134217728)) \<le> float32 (210 * (13421773 / 134217728))"
    using lo hi by (intro float32_mono) simp_all
  then show "float32 (float32 (c - (- 110)) * (13421773 / 134217728)) \<le> 21"
    unfolding float32_values t_def .
qed

lemma axis_in_grid:
  fixes u :: real
  assumes lo: "1 \<le> u" and hi: "u \<le> 21"
  defines "b \<equiv> (if c_int_cast (c_round u) \<noteq> \<lfloor>u\<rfloor> then 1 else - 1 :: int)"
  shows "1 \<le> \<lfloor>u\<rfloor>" "\<lfloor>u\<rfloor> \<le> 21" "0 \<le> \<lfloor>u\<rfloor> + b" "\<lfloor>u\<rfloor> + b \<le> 21"
proof -
  show f1: "1 \<le> \<lfloor>u\<rfloor>" using lo by (simp add: le_floor_iff)
  show f21: "\<lfloor>u\<rfloor> \<le> 21" using hi by (simp add: floor_le_iff)
  have "- 1 \<le> b" by (simp add: b_def)
  with f1 show "0 \<le> \<lfloor>u\<rfloor> + b" by linarith
  show "\<lfloor>u\<rfloor> + b \<le> 21"
  proof (cases "\<lfloor>u\<rfloor> = 21")
    case True
    then have "21 \<le> u" by (metis of_int_floor_le of_int_numeral)
    with hi have "u = 21" by simp
    then have "c_int_cast (c_round u) = 21" by (simp add: c_round_cast)
    then show ?thesis using True by (simp add: b_def)
  next
    case False
    with f21 have "\<lfloor>u\<rfloor> \<le> 20" by linarith
    moreover have "b \<le> 1" by (simp add: b_def)
    ultimately show ?thesis by linarith
  qed
qed

lemma flat_in_grid:
  assumes "0 \<le> x" "x \<le> 21" "0 \<le> y" "y \<le> 21" "0 \<le> z" "z \<le> (21::int)"
  shows "0 \<le> gridIndex3Dto1D x y z 22" "gridIndex3Dto1D x y z 22 \<le> 10647"
  using assms by (simp_all add: gridIndex3Dto1D_def)

lemma candidates_in_grid:
  assumes "inScene p"
  defines "g \<equiv> gridIndex3D p gridMinimum gridInverseCellWidth"
  defines "b \<equiv> biasAlongAxes p gridMinimum gridInverseCellWidth"
  shows "list_all (\<lambda>c. 0 \<le> ix c \<and> ix c \<le> 21 \<and> 0 \<le> iy c \<and> iy c \<le> 21 \<and> 0 \<le> iz c \<and> iz c \<le> 21)
           (candidateGridPos g b)"
proof -
  let ?u = "\<lambda>c. float32 (float32 (c - (- 110)) * (13421773 / 134217728))"
  from assms(1) have
    x: "- 100 \<le> vx p" "vx p \<le> 100" and y: "- 100 \<le> vy p" "vy p \<le> 100"
    and z: "- 100 \<le> vz p" "vz p \<le> 100"
    by (simp_all add: inScene_def scene_scale_def)
  note ax = axis_in_grid [OF scaled_in_grid [OF x]]
    and ay = axis_in_grid [OF scaled_in_grid [OF y]]
    and az = axis_in_grid [OF scaled_in_grid [OF z]]
  have gx: "ix g = \<lfloor>?u (vx p)\<rfloor>" and gy: "iy g = \<lfloor>?u (vy p)\<rfloor>" and gz: "iz g = \<lfloor>?u (vz p)\<rfloor>"
    by (simp_all add: g_def grid_values)
  have bx: "ix b = (if c_int_cast (c_round (?u (vx p))) \<noteq> \<lfloor>?u (vx p)\<rfloor> then 1 else - 1)"
    and by': "iy b = (if c_int_cast (c_round (?u (vy p))) \<noteq> \<lfloor>?u (vy p)\<rfloor> then 1 else - 1)"
    and bz: "iz b = (if c_int_cast (c_round (?u (vz p))) \<noteq> \<lfloor>?u (vz p)\<rfloor> then 1 else - 1)"
    by (simp_all add: b_def biasAlongAxes_sel grid_values)
  have "0 \<le> ix g" "ix g \<le> 21" "0 \<le> ix g + ix b" "ix g + ix b \<le> 21"
    unfolding gx bx using ax by linarith+
  moreover have "0 \<le> iy g" "iy g \<le> 21" "0 \<le> iy g + iy b" "iy g + iy b \<le> 21"
    unfolding gy by' using ay by linarith+
  moreover have "0 \<le> iz g" "iz g \<le> 21" "0 \<le> iz g + iz b" "iz g + iz b \<le> 21"
    unfolding gz bz using az by linarith+
  ultimately show ?thesis by (simp add: candidateGridPos_list)
qed

lemma candidate_cells_in_range:
  assumes "inScene p"
  shows "list_all (\<lambda>c. 0 \<le> c \<and> c \<le> 10647)
           (candidateCells (gridIndex3D p gridMinimum gridInverseCellWidth)
              (biasAlongAxes p gridMinimum gridInverseCellWidth) gridSideCount)"
  using candidates_in_grid [OF assms]
  by (auto simp add: candidateCells_def list_all_iff grid_values intro: flat_in_grid)

lemma neighborCells_in_scene:
  assumes "inScene p" and "length starts = nat gridCellCount"
  shows "neighborCells gridSideCount gridMinimum gridInverseCellWidth starts p
         = Inr (filter (\<lambda>c. starts ! nat c \<ge> 0)
                  (candidateCells (gridIndex3D p gridMinimum gridInverseCellWidth)
                     (biasAlongAxes p gridMinimum gridInverseCellWidth) gridSideCount))"
proof -
  have "list_all (\<lambda>c. 0 \<le> c \<and> c < int (length starts))
          (candidateCells (gridIndex3D p gridMinimum gridInverseCellWidth)
             (biasAlongAxes p gridMinimum gridInverseCellWidth) gridSideCount)"
    using candidate_cells_in_range [OF assms(1)] assms(2)
    by (auto simp add: list_all_iff grid_values)
  then show ?thesis by (simp add: neighborCells_def validNeighborCells_eq)
qed

text \<open>
  Claim C9. With the grid parameters that \<^verbatim>\<open>initSimulation\<close> derives (cell width 10, 22
  cells per side, minimum corner \<open>-110\<close> per axis), for a position inside the scene every
  candidate cell has its three coordinates between \<open>0\<close> and \<open>gridSideCount - 1\<close> and its
  flattened id between \<open>0\<close> and \<open>gridCellCount - 1\<close>, and the selection reads the start
  array of \<open>gridCellCount\<close> entries without leaving it.
\<close>

theorem candidate_cells_in_bounds:
  assumes "inScene p" and "length starts = nat gridCellCount"
  shows "gridCellWidth = 10 \<and> gridSideCount = 22 \<and> gridMinimum = Vec3 (- 110) (- 110) (- 110) \<and>
         list_all (\<lambda>c. 0 \<le> ix c \<and> ix c \<le> gridSideCount - 1 \<and>
                        0 \<le> iy c \<and> iy c \<le> gridSideCount - 1 \<and>
                        0 \<le> iz c \<and> iz c \<le> gridSideCount - 1)
           (candidateGridPos (gridIndex3D p gridMinimum gridInverseCellWidth)
              (biasAlongAxes p gridMinimum gridInverseCellWidth)) \<and>
         list_all (\<lambda>c. 0 \<le> c \<and> c \<le> gridCellCount - 1)
           (candidateCells (gridIndex3D p gridMinimum gridInverseCellWidth)
              (biasAlongAxes p gridMinimum gridInverseCellWidth) gridSideCount) \<and>
         neighborCells gridSideCount gridMinimum gridInverseCellWidth starts p
           = Inr (filter (\<lambda>c. starts ! nat c \<ge> 0)
                    (candidateCells (gridIndex3D p gridMinimum gridInverseCellWidth)
                       (biasAlongAxes p gridMinimum gridInverseCellWidth) gridSideCount))"
  using candidates_in_grid [OF assms(1)] candidate_cells_in_range [OF assms(1)]
    neighborCells_in_scene [OF assms]
  by (simp add: grid_values)

theorem candidate_cells_in_bounds_witness:
  "inScene (Vec3 100 (- 100) 95) \<and>
   length (replicate (nat gridCellCount) (- 1 :: int)) = nat gridCellCount \<and>
   list_all (\<lambda>c. 0 \<le> c \<and> c \<le> gridCellCount - 1)
     (candidateCells (gridIndex3D (Vec3 100 (- 100) 95) gridMinimum gridInverseCellWidth)
        (biasAlongAxes (Vec3 100 (- 100) 95) gridMinimum gridInverseCellWidth) gridSideCount) \<and>
   (\<exists>cells. neighborCells gridSideCount gridMinimum gridInverseCellWidth
              (replicate (nat gridCellCount) (- 1)) (Vec3 100 (- 100) 95) = Inr cells)"
proof -
  have a: "inScene (Vec3 100 (- 100) 95)" by (simp add: inScene_def scene_scale_def)
  have b: "length (replicate (nat gridCellCount) (- 1 :: int)) = nat gridCellCount" by simp
  from candidate_cells_in_bounds [OF a b] a b show ?thesis by blast
qed

section \<open>The cell table\<close>

lemma reset_kernel:
  assumes "length buf = C"
  shows "launch (fullBlocksPerGrid C) (kernResetIntBuffer C v) buf = replicate C v"
proof -
  have "launch (fullBlocksPerGrid C) (kernResetIntBuffer C v) buf
        = fold (kernResetIntBuffer C v) [0..<C] buf"
    by (rule launch_guarded) (simp add: kernResetIntBuffer_def)
  also have "\<dots> = fold (\<lambda>i ys. ys[i := v]) [0..<C] buf"
    by (rule fold_cong) (auto simp add: kernResetIntBuffer_def intro!: ext)
  also have "\<dots> = map (\<lambda>i. v) [0..<C]"
    using fold_slots [of C buf "\<lambda>_ _. v"] assms by simp
  also have "\<dots> = replicate C v"
    using map_replicate_const [of v "[0..<C]"] by simp
  finally show ?thesis .
qed

lemma fold_single_writer:
  fixes k :: "nat \<Rightarrow> nat"
  assumes uniq: "\<And>i j. i < n \<Longrightarrow> j < n \<Longrightarrow> P i \<Longrightarrow> P j \<Longrightarrow> k i = k j \<Longrightarrow> i = j"
    and c: "c < length S0"
  shows "length (fold (\<lambda>i S. if P i then S[k i := v i] else S) [0..<n] S0) = length S0 \<and>
         (\<forall>i<n. P i \<and> k i = c \<longrightarrow>
                 fold (\<lambda>i S. if P i then S[k i := v i] else S) [0..<n] S0 ! c = v i) \<and>
         ((\<forall>i<n. P i \<longrightarrow> k i \<noteq> c) \<longrightarrow>
            fold (\<lambda>i S. if P i then S[k i := v i] else S) [0..<n] S0 ! c = S0 ! c)"
  using uniq
proof (induction n)
  case 0
  show ?case by simp
next
  case (Suc n)
  let ?T = "fold (\<lambda>i S. if P i then S[k i := v i] else S) [0..<n] S0"
  have u: "i = j" if "i < n" "j < n" "P i" "P j" "k i = k j" for i j
    by (rule Suc.prems) (use that in simp_all)
  have IH: "length ?T = length S0 \<and>
         (\<forall>i<n. P i \<and> k i = c \<longrightarrow> ?T ! c = v i) \<and>
         ((\<forall>i<n. P i \<longrightarrow> k i \<noteq> c) \<longrightarrow> ?T ! c = S0 ! c)"
    by (rule Suc.IH) (rule u)
  have len: "length ?T = length S0" using IH by (rule conjunct1)
  have step: "fold (\<lambda>i S. if P i then S[k i := v i] else S) [0..<Suc n] S0
              = (if P n then ?T[k n := v n] else ?T)"
    by simp
  have a: "(if P n then ?T[k n := v n] else ?T) ! c = v i"
    if "i < Suc n" "P i" "k i = c" for i
  proof (cases "i = n")
    case True
    then show ?thesis using that len c by simp
  next
    case False
    then have "i < n" using that by simp
    have "k n \<noteq> c" if "P n"
    proof
      assume "k n = c"
      then have "i = n"
        using Suc.prems [of i n] \<open>i < Suc n\<close> \<open>P i\<close> \<open>P n\<close> \<open>k i = c\<close> by simp
      with False show False by simp
    qed
    moreover have "?T ! c = v i" using IH \<open>i < n\<close> that by blast
    ultimately show ?thesis by simp
  qed
  have b: "(if P n then ?T[k n := v n] else ?T) ! c = S0 ! c"
    if "\<forall>i<Suc n. P i \<longrightarrow> k i \<noteq> c"
  proof -
    from that have "\<forall>i<n. P i \<longrightarrow> k i \<noteq> c" by simp
    then have "?T ! c = S0 ! c" using IH by blast
    moreover have "P n \<longrightarrow> k n \<noteq> c" using that by simp
    ultimately show ?thesis by simp
  qed
  show ?case unfolding step
  proof (intro conjI allI impI)
    show "length (if P n then ?T[k n := v n] else ?T) = length S0"
      using len by simp
  next
    fix i
    assume "i < Suc n" and "P i \<and> k i = c"
    then show "(if P n then ?T[k n := v n] else ?T) ! c = v i"
      using a [of i] by blast
  next
    assume "\<forall>i<Suc n. P i \<longrightarrow> k i \<noteq> c"
    then show "(if P n then ?T[k n := v n] else ?T) ! c = S0 ! c"
      by (rule b)
  qed
qed

lemma foldE_pure:
  assumes "\<And>x a. x \<in> set xs \<Longrightarrow> I a \<Longrightarrow> f x a = Inr (g x a) \<and> I (g x a)" and "I a"
  shows "foldE f xs a = Inr (fold g xs a) \<and> I (fold g xs a)"
  using assms
proof (induction xs arbitrary: a)
  case Nil
  then show ?case by simp
next
  case (Cons x xs)
  have 1: "f x a = Inr (g x a)" and 2: "I (g x a)"
    using Cons.prems(1) [of x a] Cons.prems(2) by simp_all
  have "foldE f xs (g x a) = Inr (fold g xs (g x a)) \<and> I (fold g xs (g x a))"
    by (rule Cons.IH) (use Cons.prems(1) 2 in simp_all)
  then show ?case using 1 by simp
qed

lemma fold_pair:
  "fold (\<lambda>i p. (fa i (fst p), fb i (snd p))) xs (a, b) = (fold fa xs a, fold fb xs b)"
  by (induction xs arbitrary: a b) simp_all

lemma identify_thread:
  assumes "idx < N" and "length S = C" and "length E = C"
    and "0 \<le> keys ! idx" and "keys ! idx < int C"
  shows "kernIdentifyCellStartEnd N keys idx (S, E)
         = Inr (if idx = 0 \<or> keys ! idx \<noteq> keys ! (idx - 1)
                then S[nat (keys ! idx) := int idx] else S,
                if idx = N - 1 \<or> keys ! idx \<noteq> keys ! (idx + 1)
                then E[nat (keys ! idx) := int idx] else E)"
proof -
  let ?k = "keys ! idx"
  have wS: "writeAt S ?k (int idx) = Inr (S[nat ?k := int idx])"
    using assms by (simp add: writeAt_def)
  have wE: "writeAt E ?k (int idx) = Inr (E[nat ?k := int idx])"
    using assms by (simp add: writeAt_def)
  have c1: "(idx = 0 \<or> ?k \<noteq> (if 0 < idx then keys ! (idx - 1) else - 1))
            = (idx = 0 \<or> ?k \<noteq> keys ! (idx - 1))"
    by (cases "idx = 0") simp_all
  have c2: "(idx = N - 1 \<or> ?k \<noteq> (if idx < N - 1 then keys ! (idx + 1) else - 1))
            = (idx = N - 1 \<or> ?k \<noteq> keys ! (idx + 1))"
  proof (cases "idx = N - 1")
    case True
    then show ?thesis by simp
  next
    case False
    with assms(1) have "idx < N - 1" by linarith
    then show ?thesis by simp
  qed
  have "kernIdentifyCellStartEnd N keys idx (S, E)
        = bindE (if idx = 0 \<or> ?k \<noteq> keys ! (idx - 1) then Inr (S[nat ?k := int idx]) else Inr S)
            (\<lambda>starts. bindE (if idx = N - 1 \<or> ?k \<noteq> keys ! (idx + 1)
                                then Inr (E[nat ?k := int idx]) else Inr E)
               (\<lambda>ends. Inr (starts, ends)))"
    unfolding kernIdentifyCellStartEnd_def Let_def prod.case c1 c2 wS wE
    using assms(1) by (rule if_P)
  also have "\<dots> = Inr (if idx = 0 \<or> ?k \<noteq> keys ! (idx - 1) then S[nat ?k := int idx] else S,
                          if idx = N - 1 \<or> ?k \<noteq> keys ! (idx + 1) then E[nat ?k := int idx] else E)"
    by (cases "idx = 0 \<or> ?k \<noteq> keys ! (idx - 1)"; cases "idx = N - 1 \<or> ?k \<noteq> keys ! (idx + 1)")
       (simp_all only: if_True if_False bindE_simps)
  finally show ?thesis .
qed

text \<open>The cell table that the threads leave, as two folds.\<close>

lemma identify_kernel:
  assumes "length keys = N" and "length S = C" and "length E = C"
    and "list_all (\<lambda>k. 0 \<le> k \<and> k < int C) keys"
  shows "launchE (fullBlocksPerGrid N) (kernIdentifyCellStartEnd N keys) (S, E)
         = Inr (fold (\<lambda>i S. if i = 0 \<or> keys ! i \<noteq> keys ! (i - 1)
                             then S[nat (keys ! i) := int i] else S) [0..<N] S,
                fold (\<lambda>i E. if i = N - 1 \<or> keys ! i \<noteq> keys ! (i + 1)
                             then E[nat (keys ! i) := int i] else E) [0..<N] E)"
proof -
  let ?fS = "\<lambda>i S. if i = 0 \<or> keys ! i \<noteq> keys ! (i - 1) then S[nat (keys ! i) := int i] else S"
  let ?fE = "\<lambda>i E. if i = N - 1 \<or> keys ! i \<noteq> keys ! (i + 1) then E[nat (keys ! i) := int i] else E"
  let ?g = "\<lambda>i p. (?fS i (fst p), ?fE i (snd p))"
  let ?I = "\<lambda>p. length (fst p) = C \<and> length (snd p) = C"
  have A: "launchE (fullBlocksPerGrid N) (kernIdentifyCellStartEnd N keys) (S, E)
        = foldE (kernIdentifyCellStartEnd N keys) [0..<N] (S, E)"
    by (rule launchE_guarded) (simp add: kernIdentifyCellStartEnd_def split: prod.splits)
  have "foldE (kernIdentifyCellStartEnd N keys) [0..<N] (S, E)
                 = Inr (fold ?g [0..<N] (S, E)) \<and> ?I (fold ?g [0..<N] (S, E))"
  proof (rule foldE_pure)
    show "?I (S, E)" using assms by simp
  next
    fix x :: nat and a :: "int list \<times> int list"
    assume x: "x \<in> set [0..<N]" and a: "?I a"
    obtain S' E' :: "int list" where p: "a = (S', E')" by (cases a)
    have "x < N" using x by simp
    moreover have "0 \<le> keys ! x" "keys ! x < int C"
      using assms(1,4) \<open>x < N\<close> by (simp_all add: list_all_length)
    ultimately have "kernIdentifyCellStartEnd N keys x (S', E') = Inr (?g x (S', E'))"
      using a p identify_thread [of x N S' C E' keys] by simp
    moreover have "?I (?g x a)" using a by simp
    ultimately show "kernIdentifyCellStartEnd N keys x a = Inr (?g x a) \<and> ?I (?g x a)"
      using p by simp
  qed
  then have B: "foldE (kernIdentifyCellStartEnd N keys) [0..<N] (S, E)
                = Inr (fold ?g [0..<N] (S, E))"
    by (rule conjunct1)
  have C: "fold ?g [0..<N] (S, E) = (fold ?fS [0..<N] S, fold ?fE [0..<N] E)"
    by (rule fold_pair)
  show ?thesis unfolding A B C by (rule refl)
qed

lemma start_unique:
  fixes keys :: "int list"
  assumes "sorted keys" and "i < length keys" and "j < length keys"
    and "i = 0 \<or> keys ! i \<noteq> keys ! (i - 1)" and "j = 0 \<or> keys ! j \<noteq> keys ! (j - 1)"
    and "keys ! i = keys ! j"
  shows "i = j"
proof -
  have no: False
    if "a < b" "b < length keys" "b = 0 \<or> keys ! b \<noteq> keys ! (b - 1)" "keys ! a = keys ! b"
    for a b :: nat
  proof -
    have "keys ! a \<le> keys ! (b - 1)"
      by (rule sorted_nth_mono) (use assms(1) that(1,2) in simp_all)
    moreover have "keys ! (b - 1) \<le> keys ! b"
      by (rule sorted_nth_mono) (use assms(1) that(1,2) in simp_all)
    moreover have "keys ! b \<noteq> keys ! (b - 1)" using that(1,3) by blast
    ultimately show False using that(4) by linarith
  qed
  show ?thesis
  proof (cases i j rule: linorder_cases)
    case less
    then have False using assms(3,5,6) by (rule no)
    then show ?thesis ..
  next
    case equal
    then show ?thesis .
  next
    case greater
    then have False using assms(2,4) assms(6) [symmetric] by (rule no)
    then show ?thesis ..
  qed
qed

lemma end_unique:
  fixes keys :: "int list"
  assumes "sorted keys" and "i < length keys" and "j < length keys"
    and "i = length keys - 1 \<or> keys ! i \<noteq> keys ! (i + 1)"
    and "j = length keys - 1 \<or> keys ! j \<noteq> keys ! (j + 1)"
    and "keys ! i = keys ! j"
  shows "i = j"
proof -
  have no: False
    if "a < b" "b < length keys" "a = length keys - 1 \<or> keys ! a \<noteq> keys ! (a + 1)"
      "keys ! a = keys ! b"
    for a b :: nat
  proof -
    have "keys ! a \<le> keys ! (a + 1)"
      by (rule sorted_nth_mono) (use assms(1) that(1,2) in simp_all)
    moreover have "keys ! (a + 1) \<le> keys ! b"
      by (rule sorted_nth_mono) (use assms(1) that(1,2) in simp_all)
    moreover have "a \<noteq> length keys - 1" using that(1,2) by simp
    then have "keys ! a \<noteq> keys ! (a + 1)" using that(3) by blast
    ultimately show False using that(4) by linarith
  qed
  show ?thesis
  proof (cases i j rule: linorder_cases)
    case less
    then have False using assms(3,4,6) by (rule no)
    then show ?thesis ..
  next
    case equal
    then show ?thesis .
  next
    case greater
    then have False using assms(2,5) assms(6) [symmetric] by (rule no)
    then show ?thesis ..
  qed
qed

text \<open>In a sorted array the slots of a key that occurs are an interval.\<close>

lemma key_interval:
  fixes keys :: "int list"
  assumes "sorted keys" and "c \<in> set keys"
  shows "\<exists>s e. s \<le> e \<and> e < length keys \<and>
           (s = 0 \<or> keys ! s \<noteq> keys ! (s - 1)) \<and> keys ! s = c \<and>
           (e = length keys - 1 \<or> keys ! e \<noteq> keys ! (e + 1)) \<and> keys ! e = c \<and>
           (\<forall>i<length keys. (keys ! i = c) = (s \<le> i \<and> i \<le> e))"
proof -
  let ?P = "\<lambda>i. i < length keys \<and> keys ! i = c"
  from assms(2) obtain i0 where i0: "?P i0" by (auto simp add: in_set_conv_nth)
  define s where "s = (LEAST i. ?P i)"
  define e where "e = (GREATEST i. ?P i)"
  have bound: "?P y \<Longrightarrow> y \<le> length keys" for y by simp
  have s: "?P s" unfolding s_def using i0 by (rule LeastI)
  have s_le: "s \<le> i" if "?P i" for i unfolding s_def using that by (rule Least_le)
  have e: "?P e" unfolding e_def using i0 bound by (rule GreatestI_nat)
  have e_ge: "i \<le> e" if "?P i" for i unfolding e_def using that bound by (rule Greatest_le_nat)
  have sN: "s < length keys" and sc: "keys ! s = c" using s by simp_all
  have eN: "e < length keys" and ec: "keys ! e = c" using e by simp_all
  have first: "s = 0 \<or> keys ! s \<noteq> keys ! (s - 1)"
  proof (rule disjCI)
    assume "\<not> keys ! s \<noteq> keys ! (s - 1)"
    then have "keys ! (s - 1) = c" using sc by simp
    moreover have "s - 1 < length keys" using sN by linarith
    ultimately have "?P (s - 1)" by (rule conjI [rotated])
    then have "s \<le> s - 1" by (rule s_le)
    then show "s = 0" by linarith
  qed
  have last: "e = length keys - 1 \<or> keys ! e \<noteq> keys ! (e + 1)"
  proof (rule disjCI)
    assume eq: "\<not> keys ! e \<noteq> keys ! (e + 1)"
    show "e = length keys - 1"
    proof (rule ccontr)
      assume "e \<noteq> length keys - 1"
      with eN have "e + 1 < length keys" by linarith
      moreover have "keys ! (e + 1) = c" using eq ec by simp
      ultimately have "?P (e + 1)" by (rule conjI)
      then have "e + 1 \<le> e" by (rule e_ge)
      then show False by linarith
    qed
  qed
  have inside: "keys ! i = c" if "s \<le> i" "i \<le> e" for i
  proof -
    have "keys ! s \<le> keys ! i"
      by (rule sorted_nth_mono) (use assms(1) that eN in simp_all)
    moreover have "keys ! i \<le> keys ! e"
      by (rule sorted_nth_mono) (use assms(1) that eN in simp_all)
    ultimately show ?thesis using sc ec by linarith
  qed
  have iff: "(keys ! i = c) = (s \<le> i \<and> i \<le> e)" if "i < length keys" for i
  proof
    assume "keys ! i = c"
    with that have P: "?P i" by (rule conjI)
    have "s \<le> i" using P by (rule s_le)
    moreover have "i \<le> e" using P by (rule e_ge)
    ultimately show "s \<le> i \<and> i \<le> e" by (rule conjI)
  next
    assume a: "s \<le> i \<and> i \<le> e"
    show "keys ! i = c" by (rule inside) (use a in simp_all)
  qed
  have se: "s \<le> e" using s by (rule e_ge)
  have all: "\<forall>i<length keys. (keys ! i = c) = (s \<le> i \<and> i \<le> e)"
    using iff by (intro allI impI)
  from se eN first sc last ec all show ?thesis by (intro exI conjI)
qed

lemma fold_single_writer_all:
  fixes k :: "nat \<Rightarrow> nat"
  assumes "\<forall>i<n. \<forall>j<n. P i \<and> P j \<and> k i = k j \<longrightarrow> i = j"
    and "c < length S0"
  shows "length (fold (\<lambda>i S. if P i then S[k i := v i] else S) [0..<n] S0) = length S0 \<and>
         (\<forall>i<n. P i \<and> k i = c \<longrightarrow>
                 fold (\<lambda>i S. if P i then S[k i := v i] else S) [0..<n] S0 ! c = v i) \<and>
         ((\<forall>i<n. P i \<longrightarrow> k i \<noteq> c) \<longrightarrow>
            fold (\<lambda>i S. if P i then S[k i := v i] else S) [0..<n] S0 ! c = S0 ! c)"
proof (rule fold_single_writer)
  show "i = j" if "i < n" "j < n" "P i" "P j" "k i = k j" for i j
    using assms(1) that by blast
  show "c < length S0" by (rule assms(2))
qed

lemma cell_table_entry:
  fixes keys :: "int list"
  assumes srt: "sorted keys" and len: "length keys = N"
    and rng: "list_all (\<lambda>k. 0 \<le> k \<and> k < int C) keys" and c: "c < C"
  defines "FS \<equiv> fold (\<lambda>i S. if i = 0 \<or> keys ! i \<noteq> keys ! (i - 1)
                             then S[nat (keys ! i) := int i] else S) [0..<N] (replicate C (- 1))"
  defines "FE \<equiv> fold (\<lambda>i E. if i = N - 1 \<or> keys ! i \<noteq> keys ! (i + 1)
                             then E[nat (keys ! i) := int i] else E) [0..<N] (replicate C (- 1))"
  shows "length FS = C \<and> length FE = C \<and>
         (if int c \<in> set keys
          then 0 \<le> FS ! c \<and> FS ! c \<le> FE ! c \<and> FE ! c < int N \<and>
               (\<forall>i<N. (keys ! i = int c) = (FS ! c \<le> int i \<and> int i \<le> FE ! c))
          else FS ! c = - 1 \<and> FE ! c = - 1)"
proof -
  let ?first = "\<lambda>i. i = 0 \<or> keys ! i \<noteq> keys ! (i - 1)"
  let ?last = "\<lambda>i. i = N - 1 \<or> keys ! i \<noteq> keys ! (i + 1)"
  let ?k = "\<lambda>i. nat (keys ! i)"
  have nonneg: "0 \<le> keys ! i" if "i < N" for i
    using rng that len by (simp add: list_all_length)
  have keq: "keys ! i = keys ! j" if "i < N" "j < N" "?k i = ?k j" for i j
    using nonneg [OF that(1)] nonneg [OF that(2)] that(3) by linarith
  have c0: "c < length (replicate C (- 1 :: int))" using c by simp
  have uS: "i = j" if "i < N" "j < N" "?first i" "?first j" "?k i = ?k j" for i j
    by (rule start_unique [OF srt]) (use that len keq [OF that(1,2,5)] in simp_all)
  have uE: "i = j" if "i < N" "j < N" "?last i" "?last j" "?k i = ?k j" for i j
    by (rule end_unique [OF srt]) (use that len keq [OF that(1,2,5)] in simp_all)
  have uS': "\<forall>i<N. \<forall>j<N. ?first i \<and> ?first j \<and> ?k i = ?k j \<longrightarrow> i = j"
    using uS by blast
  have uE': "\<forall>i<N. \<forall>j<N. ?last i \<and> ?last j \<and> ?k i = ?k j \<longrightarrow> i = j"
    using uE by blast
  note wS = fold_single_writer_all [of N ?first ?k c "replicate C (- 1)" "\<lambda>i. int i",
      OF uS' c0, folded FS_def]
  note wE = fold_single_writer_all [of N ?last ?k c "replicate C (- 1)" "\<lambda>i. int i",
      OF uE' c0, folded FE_def]
  have lS: "length FS = C" using wS [THEN conjunct1] by simp
  have lE: "length FE = C" using wE [THEN conjunct1] by simp
  have inS: "FS ! c = int i" if "i < N" "?first i" "?k i = c" for i
    by (rule wS [THEN conjunct2, THEN conjunct1, THEN spec, THEN mp, THEN mp])
       (use that in simp_all)
  have inE: "FE ! c = int i" if "i < N" "?last i" "?k i = c" for i
    by (rule wE [THEN conjunct2, THEN conjunct1, THEN spec, THEN mp, THEN mp])
       (use that in simp_all)
  have outS: "FS ! c = - 1" if "\<forall>i<N. ?first i \<longrightarrow> ?k i \<noteq> c"
    using wS [THEN conjunct2, THEN conjunct2, THEN mp, OF that] c by simp
  have outE: "FE ! c = - 1" if "\<forall>i<N. ?last i \<longrightarrow> ?k i \<noteq> c"
    using wE [THEN conjunct2, THEN conjunct2, THEN mp, OF that] c by simp
  show ?thesis
  proof (cases "int c \<in> set keys")
    case True
    from key_interval [OF srt True] obtain s e where
      se: "s \<le> e" and eN: "e < length keys"
      and fs: "?first s" and ks: "keys ! s = int c"
      and le: "e = length keys - 1 \<or> keys ! e \<noteq> keys ! (e + 1)" and ke: "keys ! e = int c"
      and iff: "\<forall>i<length keys. (keys ! i = int c) = (s \<le> i \<and> i \<le> e)"
      by blast
    have sN: "s < N" using se eN len by simp
    have eN': "e < N" using eN len by simp
    have S: "FS ! c = int s" by (rule inS [OF sN fs]) (simp add: ks)
    have "?last e" using le len by simp
    then have E: "FE ! c = int e" by (rule inE [OF eN']) (simp add: ke)
    have "(keys ! i = int c) = (FS ! c \<le> int i \<and> int i \<le> FE ! c)" if "i < N" for i
      using iff that len unfolding S E by simp
    then show ?thesis using True se eN' lS lE unfolding S E by simp
  next
    case False
    have ne: "?k i \<noteq> c" if "i < N" for i
    proof
      assume "?k i = c"
      then have "keys ! i = int c" using nonneg [OF that] by simp
      moreover have "keys ! i \<in> set keys" using that len by simp
      ultimately show False using False by simp
    qed
    have "FS ! c = - 1" by (rule outS) (simp add: ne)
    moreover have "FE ! c = - 1" by (rule outE) (simp add: ne)
    ultimately show ?thesis using False lS lE by simp
  qed
qed

text \<open>
  Claim C7. For a non-decreasing array of \<open>N \<ge> 1\<close> grid indices, each the id of one of
  the \<open>C\<close> cells, the reset of the two arrays to \<open>-1\<close> followed by
  \<^verbatim>\<open>kernIdentifyCellStartEnd\<close> returns, and leaves for every cell \<open>c\<close> that occurs in the
  array a start and an end with \<open>0 \<le> start \<le> end < N\<close> such that the slots holding \<open>c\<close>
  are exactly those from the start to the end, and for every cell that does not occur
  the start and the end \<open>-1\<close>.
\<close>

theorem cell_ranges:
  fixes keys :: "int list"
  assumes "sorted keys" and "length keys = N" and "1 \<le> N"
    and "list_all (\<lambda>k. 0 \<le> k \<and> k < int C) keys"
    and "length starts0 = C" and "length ends0 = C"
  shows "\<exists>starts ends.
           launchE (fullBlocksPerGrid N) (kernIdentifyCellStartEnd N keys)
             (launch (fullBlocksPerGrid C) (kernResetIntBuffer C (- 1)) starts0,
              launch (fullBlocksPerGrid C) (kernResetIntBuffer C (- 1)) ends0)
             = Inr (starts, ends) \<and>
           length starts = C \<and> length ends = C \<and>
           (\<forall>c<C. if int c \<in> set keys
                   then 0 \<le> starts ! c \<and> starts ! c \<le> ends ! c \<and> ends ! c < int N \<and>
                        (\<forall>i<N. (keys ! i = int c)
                                  = (starts ! c \<le> int i \<and> int i \<le> ends ! c))
                   else starts ! c = - 1 \<and> ends ! c = - 1)"
proof -
  let ?FS = "fold (\<lambda>i S. if i = 0 \<or> keys ! i \<noteq> keys ! (i - 1)
                          then S[nat (keys ! i) := int i] else S) [0..<N] (replicate C (- 1))"
  let ?FE = "fold (\<lambda>i E. if i = N - 1 \<or> keys ! i \<noteq> keys ! (i + 1)
                          then E[nat (keys ! i) := int i] else E) [0..<N] (replicate C (- 1))"
  have run: "launchE (fullBlocksPerGrid N) (kernIdentifyCellStartEnd N keys)
               (launch (fullBlocksPerGrid C) (kernResetIntBuffer C (- 1)) starts0,
                launch (fullBlocksPerGrid C) (kernResetIntBuffer C (- 1)) ends0)
             = Inr (?FS, ?FE)"
    unfolding reset_kernel [OF assms(5)] reset_kernel [OF assms(6)]
    by (rule identify_kernel) (use assms in simp_all)
  note entry = cell_table_entry [OF assms(1,2,4)]
  have len: "length ?FS = C \<and> length ?FE = C"
  proof (cases "C = 0")
    case True
    then show ?thesis using assms(2,3,4) by (cases keys) simp_all
  next
    case False
    then have "0 < C" by simp
    from entry [OF this] show ?thesis by simp
  qed
  have each: "\<forall>c<C. if int c \<in> set keys
                   then 0 \<le> ?FS ! c \<and> ?FS ! c \<le> ?FE ! c \<and> ?FE ! c < int N \<and>
                        (\<forall>i<N. (keys ! i = int c) = (?FS ! c \<le> int i \<and> int i \<le> ?FE ! c))
                   else ?FS ! c = - 1 \<and> ?FE ! c = - 1"
  proof (intro allI impI)
    fix c assume "c < C"
    from entry [OF this] show "if int c \<in> set keys
                   then 0 \<le> ?FS ! c \<and> ?FS ! c \<le> ?FE ! c \<and> ?FE ! c < int N \<and>
                        (\<forall>i<N. (keys ! i = int c) = (?FS ! c \<le> int i \<and> int i \<le> ?FE ! c))
                   else ?FS ! c = - 1 \<and> ?FE ! c = - 1"
      by (rule conjunct2 [THEN conjunct2])
  qed
  from run len each show ?thesis by (intro exI conjI) simp_all
qed

theorem cell_ranges_witness:
  "sorted [0, 0, 2 :: int] \<and> length [0, 0, 2 :: int] = 3 \<and> (1 :: nat) \<le> 3 \<and>
   list_all (\<lambda>k. 0 \<le> k \<and> k < int 4) [0, 0, 2] \<and>
   length [7, 7, 7, 7 :: int] = 4 \<and>
   (\<exists>starts ends.
      launchE (fullBlocksPerGrid 3) (kernIdentifyCellStartEnd 3 [0, 0, 2])
        (launch (fullBlocksPerGrid 4) (kernResetIntBuffer 4 (- 1)) [7, 7, 7, 7],
         launch (fullBlocksPerGrid 4) (kernResetIntBuffer 4 (- 1)) [7, 7, 7, 7])
        = Inr (starts, ends) \<and>
      starts ! 0 = 0 \<and> ends ! 0 = 1 \<and> starts ! 1 = - 1 \<and> ends ! 1 = - 1 \<and>
      starts ! 2 = 2 \<and> ends ! 2 = 2 \<and> starts ! 3 = - 1 \<and> ends ! 3 = - 1)"
proof -
  have h: "sorted [0, 0, 2 :: int]" "length [0, 0, 2 :: int] = 3" "(1 :: nat) \<le> 3"
    "list_all (\<lambda>k. 0 \<le> k \<and> k < int 4) [0, 0, 2]" "length [7, 7, 7, 7 :: int] = 4"
    by simp_all
  from cell_ranges [OF h h(5)] obtain starts ends where
    run: "launchE (fullBlocksPerGrid 3) (kernIdentifyCellStartEnd 3 [0, 0, 2])
           (launch (fullBlocksPerGrid 4) (kernResetIntBuffer 4 (- 1)) [7, 7, 7, 7],
            launch (fullBlocksPerGrid 4) (kernResetIntBuffer 4 (- 1)) [7, 7, 7, 7])
          = Inr (starts, ends)"
    and tab: "\<forall>c<4. if int c \<in> set [0, 0, 2 :: int]
                   then 0 \<le> starts ! c \<and> starts ! c \<le> ends ! c \<and> ends ! c < int 3 \<and>
                        (\<forall>i<3. ([0, 0, 2 :: int] ! i = int c)
                                  = (starts ! c \<le> int i \<and> int i \<le> ends ! c))
                   else starts ! c = - 1 \<and> ends ! c = - 1"
    by blast
  have t0: "\<forall>i<3. ([0, 0, 2 :: int] ! i = 0) = (starts ! 0 \<le> int i \<and> int i \<le> ends ! 0)"
    using tab [THEN spec, of 0] by simp
  have t2: "\<forall>i<3. ([0, 0, 2 :: int] ! i = 2) = (starts ! 2 \<le> int i \<and> int i \<le> ends ! 2)"
    and b2: "0 \<le> starts ! 2" and e2: "ends ! 2 < 3"
    using tab [THEN spec, of 2] by simp_all
  have b0: "0 \<le> starts ! 0" using tab [THEN spec, of 0] by simp
  have "starts ! 0 = 0 \<and> ends ! 0 = 1"
    using t0 [THEN spec, of 0] t0 [THEN spec, of 1] t0 [THEN spec, of 2] b0 by auto
  moreover have "starts ! 2 = 2 \<and> ends ! 2 = 2"
    using t2 [THEN spec, of 0] t2 [THEN spec, of 1] t2 [THEN spec, of 2] b2 e2 by auto
  moreover have "starts ! 1 = - 1 \<and> ends ! 1 = - 1" using tab [THEN spec, of 1] by simp
  moreover have "starts ! 3 = - 1 \<and> ends ! 3 = - 1" using tab [THEN spec, of 3] by simp
  ultimately have "launchE (fullBlocksPerGrid 3) (kernIdentifyCellStartEnd 3 [0, 0, 2])
        (launch (fullBlocksPerGrid 4) (kernResetIntBuffer 4 (- 1)) [7, 7, 7, 7],
         launch (fullBlocksPerGrid 4) (kernResetIntBuffer 4 (- 1)) [7, 7, 7, 7])
        = Inr (starts, ends) \<and>
      starts ! 0 = 0 \<and> ends ! 0 = 1 \<and> starts ! 1 = - 1 \<and> ends ! 1 = - 1 \<and>
      starts ! 2 = 2 \<and> ends ! 2 = 2 \<and> starts ! 3 = - 1 \<and> ends ! 3 = - 1"
    using run by simp
  then have "\<exists>starts ends.
      launchE (fullBlocksPerGrid 3) (kernIdentifyCellStartEnd 3 [0, 0, 2])
        (launch (fullBlocksPerGrid 4) (kernResetIntBuffer 4 (- 1)) [7, 7, 7, 7],
         launch (fullBlocksPerGrid 4) (kernResetIntBuffer 4 (- 1)) [7, 7, 7, 7])
        = Inr (starts, ends) \<and>
      starts ! 0 = 0 \<and> ends ! 0 = 1 \<and> starts ! 1 = - 1 \<and> ends ! 1 = - 1 \<and>
      starts ! 2 = 2 \<and> ends ! 2 = 2 \<and> starts ! 3 = - 1 \<and> ends ! 3 = - 1"
    by (intro exI)
  with h show ?thesis by (intro conjI)
qed

section \<open>The neighbour search visits the boids of the searched cells\<close>

lemma fold_cond_filter:
  "fold (\<lambda>x a. if P x then f x a else a) xs a = fold f (filter P xs) a"
  by (induction xs arbitrary: a) simp_all

lemma mset_filter_disjoint:
  assumes "\<And>x. x \<in> set xs \<Longrightarrow> \<not> (P x \<and> Q x)"
  shows "mset (filter P xs) + mset (filter Q xs) = mset (filter (\<lambda>x. P x \<or> Q x) xs)"
  using assms by (induction xs) auto

lemma mset_concat_filter:
  assumes "distinct cs"
  shows "mset (concat (map (\<lambda>c. filter (\<lambda>j. k j = c) xs) cs))
         = mset (filter (\<lambda>j. k j \<in> set cs) xs)"
  using assms
proof (induction cs)
  case Nil
  then show ?case by simp
next
  case (Cons c cs)
  have "mset (concat (map (\<lambda>c. filter (\<lambda>j. k j = c) xs) (c # cs)))
        = mset (filter (\<lambda>j. k j = c) xs) + mset (filter (\<lambda>j. k j \<in> set cs) xs)"
    using Cons by simp
  also have "\<dots> = mset (filter (\<lambda>j. k j = c \<or> k j \<in> set cs) xs)"
    by (rule mset_filter_disjoint) (use Cons.prems in auto)
  also have "\<dots> = mset (filter (\<lambda>j. k j \<in> set (c # cs)) xs)"
    by simp
  finally show ?case .
qed

lemma upto_int: "[int s..int e] = map int [s..<Suc e]"
proof (induction e)
  case 0
  show ?case by (cases "s = 0") simp_all
next
  case (Suc e)
  show ?case
  proof (cases "s \<le> Suc e")
    case True
    then have "[int s..int (Suc e)] = [int s..int (Suc e) - 1] @ [int (Suc e)]"
      by (intro upto_rec2) simp
    also have "int (Suc e) - 1 = int e" by simp
    finally show ?thesis using Suc True by simp
  next
    case False
    then show ?thesis by simp
  qed
qed

lemma filter_interval:
  assumes "e < N" and "\<And>i. i < N \<Longrightarrow> P i = (s \<le> i \<and> i \<le> e)"
  shows "filter P [0..<N] = [s..<Suc e]"
proof (rule sorted_distinct_set_unique)
  show "sorted (filter P [0..<N])" by (rule sorted_wrt_filter) simp
  show "distinct (filter P [0..<N])" by simp
  show "sorted [s..<Suc e]" by (rule sorted_upt)
  show "distinct [s..<Suc e]" by (rule distinct_upt)
  show "set (filter P [0..<N]) = set [s..<Suc e]"
  proof (rule set_eqI)
    fix i
    show "(i \<in> set (filter P [0..<N])) = (i \<in> set [s..<Suc e])"
    proof (cases "i < N")
      case True
      then show ?thesis using assms(2) [OF True] by simp linarith
    next
      case False
      then show ?thesis using assms(1) by simp
    qed
  qed
qed

lemma foldE_Inr:
  assumes "\<And>x a. x \<in> set xs \<Longrightarrow> f x a = Inr (g x a)"
  shows "foldE f xs a = Inr (fold g xs a)"
  using assms by (induction xs arbitrary: a) simp_all

lemma flat_inj:
  fixes x y z x' y' z' :: int
  assumes "0 \<le> x" "x \<le> 21" "0 \<le> y" "y \<le> 21" "0 \<le> x'" "x' \<le> 21" "0 \<le> y'" "y' \<le> 21"
    and "gridIndex3Dto1D x y z 22 = gridIndex3Dto1D x' y' z' 22"
  shows "x = x' \<and> y = y' \<and> z = z'"
proof -
  have m: "(a + 22 * k) mod 22 = a" if "0 \<le> a" "a \<le> 21" for a k :: int
    using that by simp
  from assms(9) have eq: "x + 22 * (y + 22 * z) = x' + 22 * (y' + 22 * z')"
    by (simp add: gridIndex3Dto1D_def algebra_simps)
  then have "(x + 22 * (y + 22 * z)) mod 22 = (x' + 22 * (y' + 22 * z')) mod 22"
    by (rule arg_cong)
  then have x: "x = x'"
    by (simp only: m [OF assms(1,2)] m [OF assms(5,6)])
  with eq have eq2: "y + 22 * z = y' + 22 * z'" by simp
  then have "(y + 22 * z) mod 22 = (y' + 22 * z') mod 22"
    by (rule arg_cong)
  then have y: "y = y'"
    by (simp only: m [OF assms(3,4)] m [OF assms(7,8)])
  with eq2 have "z = z'" by simp
  with x y show ?thesis by simp
qed

lemma bias_nonzero:
  "ix (biasAlongAxes p gm icw) \<noteq> 0" "iy (biasAlongAxes p gm icw) \<noteq> 0"
  "iz (biasAlongAxes p gm icw) \<noteq> 0"
  by (simp_all add: biasAlongAxes_sel)

lemma distinct_candidates:
  assumes "inScene p"
  shows "distinct (candidateCells (gridIndex3D p gridMinimum gridInverseCellWidth)
                     (biasAlongAxes p gridMinimum gridInverseCellWidth) gridSideCount)"
proof -
  let ?g = "gridIndex3D p gridMinimum gridInverseCellWidth"
  let ?b = "biasAlongAxes p gridMinimum gridInverseCellWidth"
  have d3: "distinct (candidateGridPos ?g ?b)"
    using bias_nonzero [of p gridMinimum gridInverseCellWidth]
    by (simp add: candidateGridPos_list)
  have "inj_on (\<lambda>c. gridIndex3Dto1D (ix c) (iy c) (iz c) 22) (set (candidateGridPos ?g ?b))"
  proof (rule inj_onI)
    fix u v
    assume u: "u \<in> set (candidateGridPos ?g ?b)" and v: "v \<in> set (candidateGridPos ?g ?b)"
      and eq: "gridIndex3Dto1D (ix u) (iy u) (iz u) 22 = gridIndex3Dto1D (ix v) (iy v) (iz v) 22"
    from candidates_in_grid [OF assms] u v have
      "0 \<le> ix u" "ix u \<le> 21" "0 \<le> iy u" "iy u \<le> 21"
      "0 \<le> ix v" "ix v \<le> 21" "0 \<le> iy v" "iy v \<le> 21"
      by (simp_all add: list_all_iff)
    from flat_inj [OF this eq] show "u = v" by (simp add: ivec3.expand)
  qed
  with d3 show ?thesis by (simp add: candidateCells_def distinct_map grid_values)
qed

lemma fold_concat_map: "fold g (concat (map f cs)) a = fold (\<lambda>c. fold g (f c)) cs a"
  by (induction cs arbitrary: a) simp_all

lemma foldE_map_Inr:
  assumes "\<And>j a. j \<in> set xs \<Longrightarrow> body (f j) a = Inr (g j a)"
  shows "foldE body (map f xs) a = Inr (fold g xs a)"
  using assms by (induction xs arbitrary: a) simp_all

lemma forCells_slots:
  assumes rng: "\<And>c. c \<in> set cells \<Longrightarrow> 0 \<le> c \<and> c < int (length starts) \<and> c < int (length ends)"
    and sl: "\<And>c. c \<in> set cells \<Longrightarrow> [starts ! nat c..ends ! nat c] = map int (slots c)"
    and bd: "\<And>c j a. c \<in> set cells \<Longrightarrow> j \<in> set (slots c) \<Longrightarrow> body (int j) a = Inr (g j a)"
  shows "forCells starts ends cells body a = Inr (fold g (concat (map slots cells)) a)"
proof -
  have cell: "bindE (readAt starts c) (\<lambda>s. bindE (readAt ends c) (\<lambda>e. foldE body [s..e] b))
              = Inr (fold g (slots c) b)" if c: "c \<in> set cells" for c b
  proof -
    have "readAt starts c = Inr (starts ! nat c)" "readAt ends c = Inr (ends ! nat c)"
      using rng [OF c] by (simp_all add: readAt_def)
    moreover have "foldE body [starts ! nat c..ends ! nat c] b = Inr (fold g (slots c) b)"
      unfolding sl [OF c] by (rule foldE_map_Inr) (rule bd [OF c])
    ultimately show ?thesis by simp
  qed
  have "forCells starts ends cells body a = Inr (fold (\<lambda>c. fold g (slots c)) cells a)"
    unfolding forCells_def by (rule foldE_Inr) (rule cell)
  then show ?thesis by (simp only: fold_concat_map)
qed

lemma accumulate_pure:
  "i < length pos \<Longrightarrow> accumulateRule1 pos (int i) a = Inr (fst a + pos ! i, snd a + 1)"
  "i < length pos \<Longrightarrow> accumulateRule2 pos bp (int i) c = Inr (c - (pos ! i - bp))"
  "i < length vel \<Longrightarrow> accumulateRule3 vel (int i) a = Inr (fst a + vel ! i, snd a + 1)"
  by (simp_all add: accumulateRule1_def accumulateRule2_def accumulateRule3_def readAt_def
      split: prod.splits)

lemma visitScattered_pure:
  assumes "j < length p" and "p ! j < length pos"
    and "accumulate (int (p ! j)) a = Inr (u (p ! j) a)"
  shows "visitScattered (map int p) pos idx d accumulate (int j) a
         = Inr (if p ! j \<noteq> idx \<and> glm_distance (pos ! (p ! j)) (pos ! idx) < d
                then u (p ! j) a else a)"
proof -
  have "readAt (map int p) (int j) = Inr (int (p ! j))"
    using assms(1) by (simp add: readAt_def)
  moreover have "readAt pos (int (p ! j)) = Inr (pos ! (p ! j))"
    using assms(2) by (simp add: readAt_def)
  ultimately show ?thesis using assms(3) by (simp add: visitScattered_def)
qed

lemma visitCoherent_pure:
  assumes "j < length pos'" and "accumulate (int j) a = Inr (u j a)"
  shows "visitCoherent pos' idx d accumulate (int j) a
         = Inr (if j \<noteq> idx \<and> glm_distance (pos' ! j) (pos' ! idx) < d then u j a else a)"
proof -
  have "readAt pos' (int j) = Inr (pos' ! j)"
    using assms(1) by (simp add: readAt_def)
  then show ?thesis using assms(2) by (simp add: visitCoherent_def)
qed

lemma naive_folds:
  "naiveRule1 N i0 pos
   = fold (\<lambda>i a. if i \<noteq> i0 \<and> glm_distance (pos ! i) (pos ! i0) < rule1Distance
                 then (fst a + pos ! i, snd a + 1) else a) [0..<N] (0, 0)"
  "naiveRule2 N i0 pos
   = fold (\<lambda>i c. if i \<noteq> i0 \<and> glm_distance (pos ! i) (pos ! i0) < rule2Distance
                 then c - (pos ! i - pos ! i0) else c) [0..<N] 0"
  "naiveRule3 N i0 pos vel
   = fold (\<lambda>i a. if i \<noteq> i0 \<and> glm_distance (pos ! i) (pos ! i0) < rule3Distance
                 then (fst a + vel ! i, snd a + 1) else a) [0..<N] (0, 0)"
proof -
  have 1: "(\<lambda>i (pc, n). if i \<noteq> i0 \<and> glm_distance (pos ! i) (pos ! i0) < rule1Distance
                 then (pc + pos ! i, n + 1) else (pc, n :: int))
           = (\<lambda>i a. if i \<noteq> i0 \<and> glm_distance (pos ! i) (pos ! i0) < rule1Distance
                 then (fst a + pos ! i, snd a + 1) else a)"
    by (intro ext) (simp split: prod.splits)
  have 3: "(\<lambda>i (pv, n). if i \<noteq> i0 \<and> glm_distance (pos ! i) (pos ! i0) < rule3Distance
                 then (pv + vel ! i, n + 1) else (pv, n :: int))
           = (\<lambda>i a. if i \<noteq> i0 \<and> glm_distance (pos ! i) (pos ! i0) < rule3Distance
                 then (fst a + vel ! i, snd a + 1) else a)"
    by (intro ext) (simp split: prod.splits)
  show "naiveRule1 N i0 pos
   = fold (\<lambda>i a. if i \<noteq> i0 \<and> glm_distance (pos ! i) (pos ! i0) < rule1Distance
                 then (fst a + pos ! i, snd a + 1) else a) [0..<N] (0, 0)"
    unfolding naiveRule1_def 1 by (rule refl)
  show "naiveRule2 N i0 pos
   = fold (\<lambda>i c. if i \<noteq> i0 \<and> glm_distance (pos ! i) (pos ! i0) < rule2Distance
                 then c - (pos ! i - pos ! i0) else c) [0..<N] 0"
    unfolding naiveRule2_def by (rule refl)
  show "naiveRule3 N i0 pos vel
   = fold (\<lambda>i a. if i \<noteq> i0 \<and> glm_distance (pos ! i) (pos ! i0) < rule3Distance
                 then (fst a + vel ! i, snd a + 1) else a) [0..<N] (0, 0)"
    unfolding naiveRule3_def 3 by (rule refl)
qed

lemma visited_fold:
  assumes comm: "\<And>i j. upd i \<circ> upd j = upd j \<circ> upd i"
    and mset: "mset (filter cond L) = mset (filter cond xs)"
  shows "fold (\<lambda>i a. if cond i then upd i a else a) L a
         = fold (\<lambda>i a. if cond i then upd i a else a) xs a"
proof -
  have "fold upd (filter cond L) = fold upd (filter cond xs)"
    by (rule fold_multiset_equiv) (rule comm, rule mset)
  then show ?thesis by (simp only: fold_cond_filter)
qed

lemma visited_mset:
  fixes p :: "nat list" and keys :: "int list"
  assumes perm: "mset p = mset [0..<N]" and dc: "distinct cells"
  shows "mset (map (\<lambda>j. p ! j)
                (concat (map (\<lambda>c. filter (\<lambda>j. map (\<lambda>i. keys ! i) p ! j = c) [0..<N]) cells)))
         = mset (filter (\<lambda>i. keys ! i \<in> set cells) [0..<N])"
proof -
  have len: "length p = N" using mset_eq_length [OF perm] by simp
  let ?k1 = "\<lambda>j. map (\<lambda>i. keys ! i) p ! j"
  have "mset (concat (map (\<lambda>c. filter (\<lambda>j. ?k1 j = c) [0..<N]) cells))
        = mset (filter (\<lambda>j. ?k1 j \<in> set cells) [0..<N])"
    using dc by (rule mset_concat_filter)
  also have "filter (\<lambda>j. ?k1 j \<in> set cells) [0..<N]
             = filter ((\<lambda>i. keys ! i \<in> set cells) \<circ> (\<lambda>j. p ! j)) [0..<N]"
    by (rule filter_cong) (simp_all add: len)
  finally have "mset (map (\<lambda>j. p ! j)
                (concat (map (\<lambda>c. filter (\<lambda>j. ?k1 j = c) [0..<N]) cells)))
        = mset (map (\<lambda>j. p ! j) (filter ((\<lambda>i. keys ! i \<in> set cells) \<circ> (\<lambda>j. p ! j)) [0..<N]))"
    by simp
  also have "\<dots> = mset (filter (\<lambda>i. keys ! i \<in> set cells) (map (\<lambda>j. p ! j) [0..<N]))"
    by (simp only: filter_map)
  also have "map (\<lambda>j. p ! j) [0..<N] = p"
    using map_nth [of p] len by simp
  also have "mset (filter (\<lambda>i. keys ! i \<in> set cells) p)
             = mset (filter (\<lambda>i. keys ! i \<in> set cells) [0..<N])"
    using perm by (simp only: mset_filter)
  finally show ?thesis .
qed

lemma core_loop:
  fixes pos :: "vec3 list" and keys :: "int list" and p :: "nat list"
  assumes lenp: "length pos = N"
    and scene: "list_all inScene pos"
    and perm: "mset p = mset [0..<N]"
    and lenS: "length starts = nat gridCellCount" and lenE: "length ends = nat gridCellCount"
    and tab: "\<And>c. 0 \<le> c \<Longrightarrow> c < gridCellCount \<Longrightarrow> 0 \<le> starts ! nat c \<Longrightarrow>
                [starts ! nat c..ends ! nat c]
                = map int (filter (\<lambda>j. map (\<lambda>i. keys ! i) p ! j = c) [0..<N])"
    and occ: "\<And>i. i < N \<Longrightarrow> 0 \<le> starts ! nat (keys ! i)"
    and keys: "keys = map (\<lambda>q. gridIndex1D q gridMinimum gridInverseCellWidth gridSideCount) pos"
    and i0: "i0 < N"
    and comm: "\<And>i j. upd i \<circ> upd j = upd j \<circ> upd i"
    and body: "\<And>j a. j < N \<Longrightarrow>
                 body (int j) a
                 = Inr (if p ! j \<noteq> i0 \<and> glm_distance (pos ! (p ! j)) (pos ! i0) < d
                        then upd (p ! j) a else a)"
  shows "forCells starts ends
           (filter (\<lambda>c. 0 \<le> starts ! nat c)
              (candidateCells (gridIndex3D (pos ! i0) gridMinimum gridInverseCellWidth)
                 (biasAlongAxes (pos ! i0) gridMinimum gridInverseCellWidth) gridSideCount))
           body a
         = Inr (fold (\<lambda>i a. if inSearchedCells pos i0 i \<and> i \<noteq> i0 \<and>
                                glm_distance (pos ! i) (pos ! i0) < d
                             then upd i a else a) [0..<N] a)"
proof -
  let ?cands = "candidateCells (gridIndex3D (pos ! i0) gridMinimum gridInverseCellWidth)
                  (biasAlongAxes (pos ! i0) gridMinimum gridInverseCellWidth) gridSideCount"
  let ?cells = "filter (\<lambda>c. 0 \<le> starts ! nat c) ?cands"
  let ?slots = "\<lambda>c. filter (\<lambda>j. map (\<lambda>i. keys ! i) p ! j = c) [0..<N]"
  let ?near = "\<lambda>i. i \<noteq> i0 \<and> glm_distance (pos ! i) (pos ! i0) < d"
  let ?cond = "\<lambda>i. inSearchedCells pos i0 i \<and> i \<noteq> i0 \<and> glm_distance (pos ! i) (pos ! i0) < d"
  let ?h = "\<lambda>i a. if ?near i then upd i a else a"
  let ?h' = "\<lambda>i a. if ?cond i then upd i a else a"
  let ?L = "map (\<lambda>j. p ! j) (concat (map ?slots ?cells))"
  have sc0: "inScene (pos ! i0)" using scene i0 lenp by (simp add: list_all_length)
  have inr: "0 \<le> c \<and> c \<le> 10647" if "c \<in> set ?cands" for c
    using candidate_cells_in_range [OF sc0] that by (simp add: list_all_iff)
  have rng: "0 \<le> c \<and> c < int (length starts) \<and> c < int (length ends)" if "c \<in> set ?cells" for c
  proof -
    from that have "c \<in> set ?cands" by simp
    from inr [OF this] show ?thesis using lenS lenE by (simp add: grid_values)
  qed
  have sl: "[starts ! nat c..ends ! nat c] = map int (?slots c)" if "c \<in> set ?cells" for c
  proof -
    from that have c: "c \<in> set ?cands" and s: "0 \<le> starts ! nat c" by simp_all
    from inr [OF c] have "0 \<le> c" "c < gridCellCount" by (simp_all add: grid_values)
    then show ?thesis using s by (rule tab)
  qed
  have bd: "body (int j) a = Inr (?h (p ! j) a)" if "c \<in> set ?cells" "j \<in> set (?slots c)" for c j a
  proof -
    from that(2) have "j < N" by simp
    then show ?thesis by (rule body)
  qed
  have seen: "inSearchedCells pos i0 i = (keys ! i \<in> set ?cells)" if "i < N" for i
  proof -
    have k: "keys ! i = gridIndex1D (pos ! i) gridMinimum gridInverseCellWidth gridSideCount"
      using that lenp by (simp add: keys)
    have "0 \<le> starts ! nat (keys ! i)" using that by (rule occ)
    then show ?thesis unfolding inSearchedCells_def k [symmetric] by simp
  qed
  have dc: "distinct ?cells" using distinct_candidates [OF sc0] by (rule distinct_filter)
  have mL: "mset ?L = mset (filter (\<lambda>i. keys ! i \<in> set ?cells) [0..<N])"
    using perm dc by (rule visited_mset)
  have inL: "i < N \<and> inSearchedCells pos i0 i" if "i \<in> set ?L" for i
  proof -
    from that have "i \<in> set (filter (\<lambda>i. keys ! i \<in> set ?cells) [0..<N])"
      using mset_eq_setD [OF mL] by simp
    then have "i < N" and "keys ! i \<in> set ?cells" by simp_all
    then show ?thesis using seen [of i] by simp
  qed
  have "forCells starts ends ?cells body a
        = Inr (fold (\<lambda>j. ?h (p ! j)) (concat (map ?slots ?cells)) a)"
    using rng sl bd by (rule forCells_slots)
  also have "fold (\<lambda>j. ?h (p ! j)) (concat (map ?slots ?cells)) a = fold ?h ?L a"
    by (simp only: fold_map comp_def)
  also have "fold ?h ?L a = fold ?h' ?L a"
  proof (rule fold_cong [OF refl refl])
    fix i assume "i \<in> set ?L"
    from inL [OF this] show "?h i = ?h' i" by simp
  qed
  also have "\<dots> = fold ?h' [0..<N] a"
  proof (rule visited_fold [OF comm])
    have "mset (filter ?cond ?L)
          = filter_mset ?cond (mset (filter (\<lambda>i. keys ! i \<in> set ?cells) [0..<N]))"
      by (simp only: mset_filter mL)
    also have "\<dots> = mset (filter (\<lambda>i. keys ! i \<in> set ?cells \<and> ?cond i) [0..<N])"
      by (simp only: mset_filter filter_filter_mset)
    also have "filter (\<lambda>i. keys ! i \<in> set ?cells \<and> ?cond i) [0..<N] = filter ?cond [0..<N]"
    proof (rule filter_cong [OF refl])
      fix i assume "i \<in> set [0..<N]"
      then have "i < N" by simp
      then show "(keys ! i \<in> set ?cells \<and> ?cond i) = ?cond i"
        using seen [of i] by blast
    qed
    finally show "mset (filter ?cond ?L) = mset (filter ?cond [0..<N])" .
  qed
  finally show ?thesis .
qed

lemma upd_commute:
  "(\<lambda>a. (fst a + (x :: vec3), snd a + (1 :: int))) \<circ> (\<lambda>a. (fst a + y, snd a + 1))
   = (\<lambda>a. (fst a + y, snd a + 1)) \<circ> (\<lambda>a. (fst a + x, snd a + 1))"
  "(\<lambda>c. c - (x - s)) \<circ> (\<lambda>c. c - (y - s)) = (\<lambda>c :: vec3. c - (y - s)) \<circ> (\<lambda>c. c - (x - s))"
  by (simp_all add: fun_eq_iff add.commute add.left_commute vec3_eq_iff)

lemma perm_facts:
  assumes "mset p = mset [0..<N]"
  shows "length p = N" "distinct p" "\<And>j. j < N \<Longrightarrow> p ! j < N"
proof -
  show len: "length p = N" using mset_eq_length [OF assms] by simp
  show "distinct p" using mset_eq_imp_distinct_iff [OF assms] by simp
  show "p ! j < N" if "j < N" for j
  proof -
    have "p ! j \<in> set p" using that len by simp
    also have "set p = set [0..<N]" using assms by (rule mset_eq_setD)
    finally show ?thesis by simp
  qed
qed

lemma scattered_thread:
  fixes pos vel :: "vec3 list" and keys :: "int list" and p :: "nat list"
  assumes lenp: "length pos = N" and lenv: "length vel = N"
    and scene: "list_all inScene pos"
    and perm: "mset p = mset [0..<N]"
    and lenS: "length starts = nat gridCellCount" and lenE: "length ends = nat gridCellCount"
    and tab: "\<And>c. 0 \<le> c \<Longrightarrow> c < gridCellCount \<Longrightarrow> 0 \<le> starts ! nat c \<Longrightarrow>
                [starts ! nat c..ends ! nat c]
                = map int (filter (\<lambda>j. map (\<lambda>i. keys ! i) p ! j = c) [0..<N])"
    and occ: "\<And>i. i < N \<Longrightarrow> 0 \<le> starts ! nat (keys ! i)"
    and keys: "keys = map (\<lambda>q. gridIndex1D q gridMinimum gridInverseCellWidth gridSideCount) pos"
    and idx: "idx < N"
  shows "scatteredVelocity gridSideCount gridMinimum gridInverseCellWidth starts ends
           (map int p) pos vel idx
         = Inr (searchedVelocityChange N idx pos vel)"
proof -
  let ?cells = "filter (\<lambda>c. 0 \<le> starts ! nat c)
                  (candidateCells (gridIndex3D (pos ! idx) gridMinimum gridInverseCellWidth)
                     (biasAlongAxes (pos ! idx) gridMinimum gridInverseCellWidth) gridSideCount)"
  note pf = perm_facts [OF perm]
  have sc: "inScene (pos ! idx)" using scene idx lenp by (simp add: list_all_length)
  have nc: "neighborCells gridSideCount gridMinimum gridInverseCellWidth starts (pos ! idx)
            = Inr ?cells"
    using sc lenS by (rule neighborCells_in_scene)
  note core = core_loop [OF lenp scene perm lenS lenE tab occ keys idx]
  have r1: "forCells starts ends ?cells
              (visitScattered (map int p) pos idx rule1Distance (accumulateRule1 pos)) (0, 0)
            = Inr (searchedRule1 N idx pos)"
    unfolding searchedRule1_def
  proof (rule core)
    show "(\<lambda>a. (fst a + pos ! i, snd a + (1 :: int))) \<circ> (\<lambda>a. (fst a + pos ! j, snd a + 1))
          = (\<lambda>a. (fst a + pos ! j, snd a + 1)) \<circ> (\<lambda>a. (fst a + pos ! i, snd a + 1))" for i j
      by (rule upd_commute)
    show "visitScattered (map int p) pos idx rule1Distance (accumulateRule1 pos) (int j) a
          = Inr (if p ! j \<noteq> idx \<and> glm_distance (pos ! (p ! j)) (pos ! idx) < rule1Distance
                 then (fst a + pos ! (p ! j), snd a + 1) else a)" if "j < N" for j a
      by (rule visitScattered_pure)
         (use that pf lenp in \<open>simp_all add: accumulate_pure\<close>)
  qed
  have r2: "forCells starts ends ?cells
              (visitScattered (map int p) pos idx rule2Distance (accumulateRule2 pos (pos ! idx))) 0
            = Inr (searchedRule2 N idx pos)"
    unfolding searchedRule2_def
  proof (rule core)
    show "(\<lambda>c. c - (pos ! i - pos ! idx)) \<circ> (\<lambda>c. c - (pos ! j - pos ! idx))
          = (\<lambda>c. c - (pos ! j - pos ! idx)) \<circ> (\<lambda>c. c - (pos ! i - pos ! idx))" for i j
      by (rule upd_commute)
    show "visitScattered (map int p) pos idx rule2Distance (accumulateRule2 pos (pos ! idx)) (int j) a
          = Inr (if p ! j \<noteq> idx \<and> glm_distance (pos ! (p ! j)) (pos ! idx) < rule2Distance
                 then a - (pos ! (p ! j) - pos ! idx) else a)" if "j < N" for j a
      by (rule visitScattered_pure)
         (use that pf lenp in \<open>simp_all add: accumulate_pure\<close>)
  qed
  have r3: "forCells starts ends ?cells
              (visitScattered (map int p) pos idx rule3Distance (accumulateRule3 vel)) (0, 0)
            = Inr (searchedRule3 N idx pos vel)"
    unfolding searchedRule3_def
  proof (rule core)
    show "(\<lambda>a. (fst a + vel ! i, snd a + (1 :: int))) \<circ> (\<lambda>a. (fst a + vel ! j, snd a + 1))
          = (\<lambda>a. (fst a + vel ! j, snd a + 1)) \<circ> (\<lambda>a. (fst a + vel ! i, snd a + 1))" for i j
      by (rule upd_commute)
    show "visitScattered (map int p) pos idx rule3Distance (accumulateRule3 vel) (int j) a
          = Inr (if p ! j \<noteq> idx \<and> glm_distance (pos ! (p ! j)) (pos ! idx) < rule3Distance
                 then (fst a + vel ! (p ! j), snd a + 1) else a)" if "j < N" for j a
      by (rule visitScattered_pure)
         (use that pf lenp lenv in \<open>simp_all add: accumulate_pure\<close>)
  qed
  show ?thesis
    unfolding scatteredVelocity_def searchedVelocityChange_def Let_def nc bindE_simps r1 r2 r3
    by (rule refl)
qed

lemma visitCoherent_perm:
  assumes "length p = N" and "distinct p" and "j < N" and "idx < N"
    and "accumulate (int j) a = Inr (upd (p ! j) a)"
  shows "visitCoherent (map (\<lambda>i. pos ! i) p) idx d accumulate (int j) a
         = Inr (if p ! j \<noteq> p ! idx \<and> glm_distance (pos ! (p ! j)) (pos ! (p ! idx)) < d
                then upd (p ! j) a else a)"
proof -
  have ne: "(j \<noteq> idx) = (p ! j \<noteq> p ! idx)"
    using assms(1-4) by (simp add: nth_eq_iff_index_eq)
  have "visitCoherent (map (\<lambda>i. pos ! i) p) idx d accumulate (int j) a
        = Inr (if j \<noteq> idx \<and> glm_distance (map (\<lambda>i. pos ! i) p ! j) (map (\<lambda>i. pos ! i) p ! idx) < d
               then upd (p ! j) a else a)"
    by (rule visitCoherent_pure [where u = "\<lambda>j. upd (p ! j)"]) (use assms in simp_all)
  also have "map (\<lambda>i. pos ! i) p ! j = pos ! (p ! j)" using assms(1,3) by simp
  also have "map (\<lambda>i. pos ! i) p ! idx = pos ! (p ! idx)" using assms(1,4) by simp
  finally show ?thesis unfolding ne .
qed

lemma coherent_thread:
  fixes pos vel :: "vec3 list" and keys :: "int list" and p :: "nat list"
  assumes lenp: "length pos = N" and lenv: "length vel = N"
    and scene: "list_all inScene pos"
    and perm: "mset p = mset [0..<N]"
    and lenS: "length starts = nat gridCellCount" and lenE: "length ends = nat gridCellCount"
    and tab: "\<And>c. 0 \<le> c \<Longrightarrow> c < gridCellCount \<Longrightarrow> 0 \<le> starts ! nat c \<Longrightarrow>
                [starts ! nat c..ends ! nat c]
                = map int (filter (\<lambda>j. map (\<lambda>i. keys ! i) p ! j = c) [0..<N])"
    and occ: "\<And>i. i < N \<Longrightarrow> 0 \<le> starts ! nat (keys ! i)"
    and keys: "keys = map (\<lambda>q. gridIndex1D q gridMinimum gridInverseCellWidth gridSideCount) pos"
    and idx: "idx < N"
  shows "coherentVelocity gridSideCount gridMinimum gridInverseCellWidth starts ends
           (map (\<lambda>i. pos ! i) p) (map (\<lambda>i. vel ! i) p) idx
         = Inr (searchedVelocityChange N (p ! idx) pos vel)"
proof -
  let ?pos' = "map (\<lambda>i. pos ! i) p" and ?vel' = "map (\<lambda>i. vel ! i) p"
  let ?i0 = "p ! idx"
  let ?cells = "filter (\<lambda>c. 0 \<le> starts ! nat c)
                  (candidateCells (gridIndex3D (pos ! ?i0) gridMinimum gridInverseCellWidth)
                     (biasAlongAxes (pos ! ?i0) gridMinimum gridInverseCellWidth) gridSideCount)"
  note pf = perm_facts [OF perm]
  have i0: "?i0 < N" using idx by (rule pf(3))
  have bp: "?pos' ! idx = pos ! ?i0" using idx pf(1) by simp
  have bv: "?vel' ! idx = vel ! ?i0" using idx pf(1) by simp
  have sc: "inScene (pos ! ?i0)" using scene i0 lenp by (simp add: list_all_length)
  have nc: "neighborCells gridSideCount gridMinimum gridInverseCellWidth starts (pos ! ?i0)
            = Inr ?cells"
    using sc lenS by (rule neighborCells_in_scene)
  have len': "length ?pos' = N" "length ?vel' = N" using pf(1) by simp_all
  have nth': "?pos' ! j = pos ! (p ! j)" "?vel' ! j = vel ! (p ! j)" if "j < N" for j
    using that pf(1) by simp_all
  note core = core_loop [OF lenp scene perm lenS lenE tab occ keys i0]
  have r1: "forCells starts ends ?cells
              (visitCoherent ?pos' idx rule1Distance (accumulateRule1 ?pos')) (0, 0)
            = Inr (searchedRule1 N ?i0 pos)"
    unfolding searchedRule1_def
  proof (rule core)
    show "(\<lambda>a. (fst a + pos ! i, snd a + (1 :: int))) \<circ> (\<lambda>a. (fst a + pos ! j, snd a + 1))
          = (\<lambda>a. (fst a + pos ! j, snd a + 1)) \<circ> (\<lambda>a. (fst a + pos ! i, snd a + 1))" for i j
      by (rule upd_commute)
    show "visitCoherent ?pos' idx rule1Distance (accumulateRule1 ?pos') (int j) a
          = Inr (if p ! j \<noteq> ?i0 \<and> glm_distance (pos ! (p ! j)) (pos ! ?i0) < rule1Distance
                 then (fst a + pos ! (p ! j), snd a + 1) else a)" if "j < N" for j a
    proof (rule visitCoherent_perm [OF pf(1,2) that idx])
      show "accumulateRule1 ?pos' (int j) a = Inr (fst a + pos ! (p ! j), snd a + 1)"
        using that len' by (simp add: accumulate_pure nth' del: nth_map)
    qed
  qed
  have r2: "forCells starts ends ?cells
              (visitCoherent ?pos' idx rule2Distance (accumulateRule2 ?pos' (pos ! ?i0))) 0
            = Inr (searchedRule2 N ?i0 pos)"
    unfolding searchedRule2_def
  proof (rule core)
    show "(\<lambda>c. c - (pos ! i - pos ! ?i0)) \<circ> (\<lambda>c. c - (pos ! j - pos ! ?i0))
          = (\<lambda>c. c - (pos ! j - pos ! ?i0)) \<circ> (\<lambda>c. c - (pos ! i - pos ! ?i0))" for i j
      by (rule upd_commute)
    show "visitCoherent ?pos' idx rule2Distance (accumulateRule2 ?pos' (pos ! ?i0)) (int j) a
          = Inr (if p ! j \<noteq> ?i0 \<and> glm_distance (pos ! (p ! j)) (pos ! ?i0) < rule2Distance
                 then a - (pos ! (p ! j) - pos ! ?i0) else a)" if "j < N" for j a
    proof (rule visitCoherent_perm [OF pf(1,2) that idx])
      show "accumulateRule2 ?pos' (pos ! ?i0) (int j) a = Inr (a - (pos ! (p ! j) - pos ! ?i0))"
        using that len' by (simp add: accumulate_pure nth' del: nth_map)
    qed
  qed
  have r3: "forCells starts ends ?cells
              (visitCoherent ?pos' idx rule3Distance (accumulateRule3 ?vel')) (0, 0)
            = Inr (searchedRule3 N ?i0 pos vel)"
    unfolding searchedRule3_def
  proof (rule core)
    show "(\<lambda>a. (fst a + vel ! i, snd a + (1 :: int))) \<circ> (\<lambda>a. (fst a + vel ! j, snd a + 1))
          = (\<lambda>a. (fst a + vel ! j, snd a + 1)) \<circ> (\<lambda>a. (fst a + vel ! i, snd a + 1))" for i j
      by (rule upd_commute)
    show "visitCoherent ?pos' idx rule3Distance (accumulateRule3 ?vel') (int j) a
          = Inr (if p ! j \<noteq> ?i0 \<and> glm_distance (pos ! (p ! j)) (pos ! ?i0) < rule3Distance
                 then (fst a + vel ! (p ! j), snd a + 1) else a)" if "j < N" for j a
    proof (rule visitCoherent_perm [OF pf(1,2) that idx])
      show "accumulateRule3 ?vel' (int j) a = Inr (fst a + vel ! (p ! j), snd a + 1)"
        using that len' by (simp add: accumulate_pure nth' del: nth_map)
    qed
  qed
  show ?thesis
    unfolding coherentVelocity_def searchedVelocityChange_def Let_def bp bv nc bindE_simps r1 r2 r3
    by (rule refl)
qed


text \<open>
  When every neighbour of a boid lies in a searched cell, restricting the loops to the
  searched cells changes nothing.
\<close>

lemma covered_row:
  assumes "neighborsCovered pos" and "i < length pos" and "j < length pos"
    and "glm_distance (pos ! j) (pos ! i) < d" and "d \<le> 5"
  shows "inSearchedCells pos i j"
proof -
  have "glm_distance (pos ! j) (pos ! i) < searchRadius"
    using assms(4,5)
    by (simp add: searchRadius_def rule1Distance_def rule2Distance_def rule3Distance_def)
  moreover from assms(1,2,3) have
    "glm_distance (pos ! j) (pos ! i) < searchRadius \<longrightarrow> inSearchedCells pos i j"
    by (simp add: neighborsCovered_def list_all_iff)
  ultimately show ?thesis by (rule rev_mp)
qed

lemma searched_fold_covered:
  assumes cov: "neighborsCovered pos" and len: "length pos = N" and i: "i0 < N" and d: "d \<le> 5"
  shows "fold (\<lambda>i a. if inSearchedCells pos i0 i \<and> i \<noteq> i0 \<and>
                        glm_distance (pos ! i) (pos ! i0) < d then upd i a else a) [0..<N] a
         = fold (\<lambda>i a. if i \<noteq> i0 \<and> glm_distance (pos ! i) (pos ! i0) < d
                       then upd i a else a) [0..<N] a"
proof (rule fold_cong [OF refl refl])
  fix j assume "j \<in> set [0..<N]"
  then have j: "j < length pos" using len by simp
  have "inSearchedCells pos i0 j" if "glm_distance (pos ! j) (pos ! i0) < d"
    using cov i [folded len] j that d by (rule covered_row)
  then show "(\<lambda>a. if inSearchedCells pos i0 j \<and> j \<noteq> i0 \<and>
                     glm_distance (pos ! j) (pos ! i0) < d then upd j a else a)
             = (\<lambda>a. if j \<noteq> i0 \<and> glm_distance (pos ! j) (pos ! i0) < d then upd j a else a)"
    by (intro ext) auto
qed

lemma searched_eq_naive:
  assumes "neighborsCovered pos" and "length pos = N" and "i < N"
  shows "searchedVelocityChange N i pos vel = computeVelocityChange N i pos vel"
proof -
  note sf = searched_fold_covered [OF assms]
  have "searchedRule1 N i pos = naiveRule1 N i pos"
    unfolding searchedRule1_def naive_folds by (rule sf) (simp add: rule1Distance_def)
  moreover have "searchedRule2 N i pos = naiveRule2 N i pos"
    unfolding searchedRule2_def naive_folds by (rule sf) (simp add: rule2Distance_def)
  moreover have "searchedRule3 N i pos vel = naiveRule3 N i pos vel"
    unfolding searchedRule3_def naive_folds by (rule sf) (simp add: rule3Distance_def)
  ultimately show ?thesis
    by (simp add: searchedVelocityChange_def computeVelocityChange_def Let_def)
qed


text \<open>
  Why two cells per axis are enough when nothing is rounded: a cell is twice as wide as the
  largest rule distance, so a scaled coordinate that differs by less than one half lies
  in the same cell or in the neighbouring cell on the side of the bias; and no coordinate
  differs by more than the distance. The cover can fail only through the rounding of the
  scaled coordinate.
\<close>

lemma axis_cover:
  fixes u u' :: real
  assumes "\<bar>u' - u\<bar> < 1 / 2"
  shows "\<lfloor>u'\<rfloor> = \<lfloor>u\<rfloor> \<or>
         \<lfloor>u'\<rfloor> = \<lfloor>u\<rfloor> + (if c_int_cast (c_round u) \<noteq> \<lfloor>u\<rfloor> then 1 else - 1)"
proof -
  have fl: "of_int \<lfloor>u\<rfloor> \<le> u" "u < of_int \<lfloor>u\<rfloor> + 1" by linarith+
  have fl': "of_int \<lfloor>u'\<rfloor> \<le> u'" "u' < of_int \<lfloor>u'\<rfloor> + 1" by linarith+
  from assms have d: "u - 1 / 2 < u'" "u' < u + 1 / 2" by linarith+
  show ?thesis
  proof (cases "c_int_cast (c_round u) \<noteq> \<lfloor>u\<rfloor>")
    case True
    have half: "of_int \<lfloor>u\<rfloor> + 1 / 2 \<le> u"
    proof (rule ccontr)
      assume "\<not> of_int \<lfloor>u\<rfloor> + 1 / 2 \<le> u"
      then have lt: "u < of_int \<lfloor>u\<rfloor> + 1 / 2" by simp
      have "c_int_cast (c_round u) = \<lfloor>u\<rfloor>"
      proof (cases "u < 0")
        case True
        have "\<lceil>u - 1 / 2\<rceil> = \<lfloor>u\<rfloor>"
          by (rule ceiling_unique) (use lt fl in linarith)+
        then show ?thesis using True by (simp add: c_round_cast)
      next
        case False
        have "\<lfloor>u + 1 / 2\<rfloor> = \<lfloor>u\<rfloor>"
          by (rule floor_unique) (use lt fl in linarith)+
        then show ?thesis using False by (simp add: c_round_cast)
      qed
      with True show False by simp
    qed
    have "of_int \<lfloor>u\<rfloor> < u'" using half d by linarith
    moreover have "u' < of_int \<lfloor>u\<rfloor> + 2" using fl d by linarith
    ultimately have "\<lfloor>u'\<rfloor> = \<lfloor>u\<rfloor> \<or> \<lfloor>u'\<rfloor> = \<lfloor>u\<rfloor> + 1"
      using fl' by linarith
    then show ?thesis using True by simp
  next
    case False
    then have eq: "c_int_cast (c_round u) = \<lfloor>u\<rfloor>" by simp
    have half: "u \<le> of_int \<lfloor>u\<rfloor> + 1 / 2"
    proof (rule ccontr)
      assume "\<not> u \<le> of_int \<lfloor>u\<rfloor> + 1 / 2"
      then have gt: "of_int \<lfloor>u\<rfloor> + 1 / 2 < u" by simp
      have "c_int_cast (c_round u) = \<lfloor>u\<rfloor> + 1"
      proof (cases "u < 0")
        case True
        have "\<lceil>u - 1 / 2\<rceil> = \<lfloor>u\<rfloor> + 1"
        proof (rule ceiling_unique)
          show "of_int (\<lfloor>u\<rfloor> + 1) - 1 < u - 1 / 2" using gt by simp
          have "u \<le> of_int \<lfloor>u\<rfloor> + 3 / 2" using fl by linarith
          then show "u - 1 / 2 \<le> of_int (\<lfloor>u\<rfloor> + 1)" by simp
        qed
        then show ?thesis using True by (simp add: c_round_cast)
      next
        case False
        have "\<lfloor>u + 1 / 2\<rfloor> = \<lfloor>u\<rfloor> + 1"
        proof (rule floor_unique)
          have "of_int \<lfloor>u\<rfloor> + 1 \<le> u + 1 / 2" using gt by linarith
          then show "of_int (\<lfloor>u\<rfloor> + 1) \<le> u + 1 / 2" by simp
          have "u + 1 / 2 < of_int \<lfloor>u\<rfloor> + 2" using fl by linarith
          then show "u + 1 / 2 < of_int (\<lfloor>u\<rfloor> + 1) + 1" by simp
        qed
        then show ?thesis using False by (simp add: c_round_cast)
      qed
      with eq show False by simp
    qed
    have "of_int \<lfloor>u\<rfloor> - 1 < u'" using fl d by linarith
    moreover have "u' < of_int \<lfloor>u\<rfloor> + 1" using half d by linarith
    ultimately have "\<lfloor>u'\<rfloor> = \<lfloor>u\<rfloor> \<or> \<lfloor>u'\<rfloor> = \<lfloor>u\<rfloor> - 1"
      using fl' by linarith
    then show ?thesis using False by simp
  qed
qed

lemma coordinate_le_distance:
  "\<bar>vx a - vx b\<bar> \<le> glm_distance a b"
  "\<bar>vy a - vy b\<bar> \<le> glm_distance a b"
  "\<bar>vz a - vz b\<bar> \<le> glm_distance a b"
proof -
  let ?dx = "vx b - vx a" and ?dy = "vy b - vy a" and ?dz = "vz b - vz a"
  have d: "glm_distance a b = sqrt (?dx * ?dx + ?dy * ?dy + ?dz * ?dz)"
    by (simp add: glm_distance_def glm_length_def glm_dot_def)
  have "\<bar>?dx\<bar> = sqrt (?dx * ?dx)" by simp
  also have "\<dots> \<le> sqrt (?dx * ?dx + ?dy * ?dy + ?dz * ?dz)"
    by (rule real_sqrt_le_mono) (simp add: add_nonneg_nonneg)
  finally show "\<bar>vx a - vx b\<bar> \<le> glm_distance a b" unfolding d by (simp add: abs_minus_commute)
  have "\<bar>?dy\<bar> = sqrt (?dy * ?dy)" by simp
  also have "\<dots> \<le> sqrt (?dx * ?dx + ?dy * ?dy + ?dz * ?dz)"
    by (rule real_sqrt_le_mono) (simp add: add_nonneg_nonneg)
  finally show "\<bar>vy a - vy b\<bar> \<le> glm_distance a b" unfolding d by (simp add: abs_minus_commute)
  have "\<bar>?dz\<bar> = sqrt (?dz * ?dz)" by simp
  also have "\<dots> \<le> sqrt (?dx * ?dx + ?dy * ?dy + ?dz * ?dz)"
    by (rule real_sqrt_le_mono) (simp add: add_nonneg_nonneg)
  finally show "\<bar>vz a - vz b\<bar> \<le> glm_distance a b" unfolding d by (simp add: abs_minus_commute)
qed

section \<open>The grid steps and the brute-force step\<close>

lemma fold_update_length:
  "length (fold (\<lambda>i S. if P i then S[k i := v i] else S) xs S0) = length S0"
  by (induction xs arbitrary: S0) simp_all

lemma table_facts:
  fixes keys1 :: "int list"
  assumes srt: "sorted keys1" and len: "length keys1 = N"
    and rng: "list_all (\<lambda>k. 0 \<le> k \<and> k < int C) keys1"
  obtains starts ends where
    "launchE (fullBlocksPerGrid N) (kernIdentifyCellStartEnd N keys1)
       (replicate C (- 1), replicate C (- 1)) = Inr (starts, ends)"
    and "length starts = C" and "length ends = C"
    and "\<And>c. 0 \<le> c \<Longrightarrow> c < int C \<Longrightarrow> 0 \<le> starts ! nat c \<Longrightarrow>
           [starts ! nat c..ends ! nat c] = map int (filter (\<lambda>j. keys1 ! j = c) [0..<N])"
    and "\<And>k. k \<in> set keys1 \<Longrightarrow> 0 \<le> starts ! nat k"
proof -
  let ?FS = "fold (\<lambda>i S. if i = 0 \<or> keys1 ! i \<noteq> keys1 ! (i - 1)
                          then S[nat (keys1 ! i) := int i] else S) [0..<N] (replicate C (- 1))"
  let ?FE = "fold (\<lambda>i E. if i = N - 1 \<or> keys1 ! i \<noteq> keys1 ! (i + 1)
                          then E[nat (keys1 ! i) := int i] else E) [0..<N] (replicate C (- 1))"
  have run: "launchE (fullBlocksPerGrid N) (kernIdentifyCellStartEnd N keys1)
               (replicate C (- 1), replicate C (- 1)) = Inr (?FS, ?FE)"
    by (rule identify_kernel) (use len rng in simp_all)
  have lS: "length ?FS = C" by (simp only: fold_update_length length_replicate)
  have lE: "length ?FE = C" by (simp only: fold_update_length length_replicate)
  note entry = cell_table_entry [OF srt len rng]
  have present: "0 \<le> ?FS ! c \<and> ?FS ! c \<le> ?FE ! c \<and> ?FE ! c < int N \<and>
               (\<forall>i<N. (keys1 ! i = int c) = (?FS ! c \<le> int i \<and> int i \<le> ?FE ! c))"
    if "c < C" "int c \<in> set keys1" for c
    using entry [OF that(1), THEN conjunct2, THEN conjunct2] unfolding if_P [OF that(2)] .
  have absent: "?FS ! c = - 1" if "c < C" "int c \<notin> set keys1" for c
    using entry [OF that(1), THEN conjunct2, THEN conjunct2] unfolding if_not_P [OF that(2)]
    by (rule conjunct1)
  have tab: "[?FS ! nat c..?FE ! nat c] = map int (filter (\<lambda>j. keys1 ! j = c) [0..<N])"
    if c: "0 \<le> c" "c < int C" and s: "0 \<le> ?FS ! nat c" for c
  proof -
    have cC: "nat c < C" using c by linarith
    have ic: "int (nat c) = c" using c by simp
    have "int (nat c) \<in> set keys1"
    proof (rule ccontr)
      assume "int (nat c) \<notin> set keys1"
      with cC have "?FS ! nat c = - 1" by (rule absent)
      with s show False by simp
    qed
    from present [OF cC this] have
      b: "0 \<le> ?FS ! nat c" "?FS ! nat c \<le> ?FE ! nat c" "?FE ! nat c < int N"
      and iff: "\<forall>i<N. (keys1 ! i = c) = (?FS ! nat c \<le> int i \<and> int i \<le> ?FE ! nat c)"
      unfolding ic by simp_all
    define s' where "s' = nat (?FS ! nat c)"
    define e' where "e' = nat (?FE ! nat c)"
    have eqs: "?FS ! nat c = int s'" and eqe: "?FE ! nat c = int e'"
      using b by (simp_all add: s'_def e'_def)
    have eN: "e' < N" using b(3) unfolding eqe by simp
    have "filter (\<lambda>j. keys1 ! j = c) [0..<N] = [s'..<Suc e']"
    proof (rule filter_interval [OF eN])
      fix i assume "i < N"
      with iff have "(keys1 ! i = c) = (?FS ! nat c \<le> int i \<and> int i \<le> ?FE ! nat c)" by simp
      then show "(keys1 ! i = c) = (s' \<le> i \<and> i \<le> e')" unfolding eqs eqe by simp
    qed
    then show ?thesis unfolding eqs eqe by (simp only: upto_int)
  qed
  have occ: "0 \<le> ?FS ! nat k" if "k \<in> set keys1" for k
  proof -
    from rng that have k: "0 \<le> k" "k < int C" by (simp_all add: list_all_iff)
    then have "nat k < C" by linarith
    moreover have "int (nat k) \<in> set keys1" using k that by simp
    ultimately show ?thesis using present by simp
  qed
  from run lS lE tab occ show ?thesis by (rule that)
qed

lemma computeIndices_kernel:
  assumes "length I = N" and "length G = N"
  shows "launch (fullBlocksPerGrid N) (kernComputeIndices N res gm icw pos) (I, G)
         = (map int [0..<N], map (\<lambda>i. gridIndex1D (pos ! i) gm icw res) [0..<N])"
proof -
  let ?fa = "\<lambda>i (I :: int list). I[i := int i]"
  let ?fb = "\<lambda>i (G :: int list). G[i := gridIndex1D (pos ! i) gm icw res]"
  have "launch (fullBlocksPerGrid N) (kernComputeIndices N res gm icw pos) (I, G)
        = fold (kernComputeIndices N res gm icw pos) [0..<N] (I, G)"
    by (rule launch_guarded) (simp add: kernComputeIndices_def split: prod.splits)
  also have "\<dots> = fold (\<lambda>i p. (?fa i (fst p), ?fb i (snd p))) [0..<N] (I, G)"
    by (rule fold_cong)
       (auto simp add: kernComputeIndices_def Let_def fun_eq_iff split: prod.splits)
  also have "\<dots> = (fold ?fa [0..<N] I, fold ?fb [0..<N] G)"
    by (rule fold_pair)
  also have "fold ?fa [0..<N] I = map int [0..<N]"
    using fold_slots [of N I "\<lambda>i _. int i"] assms(1) by simp
  also have "fold ?fb [0..<N] G = map (\<lambda>i. gridIndex1D (pos ! i) gm icw res) [0..<N]"
    using fold_slots [of N G "\<lambda>i _. gridIndex1D (pos ! i) gm icw res"] assms(2) by simp
  finally show ?thesis .
qed

lemma resetAndLabel_allocated:
  assumes "allocated s"
  shows "dev_gridCellStartIndices (resetAndLabel s) = replicate (nat gridCellCount) (- 1)"
    and "dev_gridCellEndIndices (resetAndLabel s) = replicate (nat gridCellCount) (- 1)"
    and "dev_particleArrayIndices (resetAndLabel s) = map int [0..<numObjects s]"
    and "dev_particleGridIndices (resetAndLabel s)
         = map (\<lambda>q. gridIndex1D q gridMinimum gridInverseCellWidth gridSideCount) (dev_pos s)"
proof -
  from assms have l: "length (dev_pos s) = numObjects s"
    "length (dev_particleArrayIndices s) = numObjects s"
    "length (dev_particleGridIndices s) = numObjects s"
    "length (dev_gridCellStartIndices s) = nat gridCellCount"
    "length (dev_gridCellEndIndices s) = nat gridCellCount"
    by (simp_all add: allocated_def)
  note ci = computeIndices_kernel [OF l(2,3), of gridSideCount gridMinimum gridInverseCellWidth
      "dev_pos s"]
  show "dev_gridCellStartIndices (resetAndLabel s) = replicate (nat gridCellCount) (- 1)"
    by (simp add: resetAndLabel_def Let_def reset_kernel [OF l(4)])
  show "dev_gridCellEndIndices (resetAndLabel s) = replicate (nat gridCellCount) (- 1)"
    by (simp add: resetAndLabel_def Let_def reset_kernel [OF l(5)])
  show "dev_particleArrayIndices (resetAndLabel s) = map int [0..<numObjects s]"
    by (simp add: resetAndLabel_def Let_def ci)
  have "map (\<lambda>i. gridIndex1D (dev_pos s ! i) gridMinimum gridInverseCellWidth gridSideCount)
          [0..<numObjects s]
        = map (\<lambda>q. gridIndex1D q gridMinimum gridInverseCellWidth gridSideCount) (dev_pos s)"
    using l(1) by (intro nth_equalityI) simp_all
  then show "dev_particleGridIndices (resetAndLabel s)
         = map (\<lambda>q. gridIndex1D q gridMinimum gridInverseCellWidth gridSideCount) (dev_pos s)"
    by (simp add: resetAndLabel_def Let_def ci)
qed

lemma key_in_grid:
  assumes "inScene q"
  shows "0 \<le> gridIndex1D q gridMinimum gridInverseCellWidth gridSideCount"
    and "gridIndex1D q gridMinimum gridInverseCellWidth gridSideCount < gridCellCount"
proof -
  let ?g = "gridIndex3D q gridMinimum gridInverseCellWidth"
  let ?b = "biasAlongAxes q gridMinimum gridInverseCellWidth"
  have "IVec3 (ix ?g) (iy ?g) (iz ?g) \<in> set (candidateGridPos ?g ?b)"
    by (simp add: candidateGridPos_list)
  with candidates_in_grid [OF assms] have
    b: "0 \<le> ix ?g" "ix ?g \<le> 21" "0 \<le> iy ?g" "iy ?g \<le> 21" "0 \<le> iz ?g" "iz ?g \<le> 21"
    unfolding list_all_iff by fastforce+
  from flat_in_grid [OF b]
  show "0 \<le> gridIndex1D q gridMinimum gridInverseCellWidth gridSideCount"
    and "gridIndex1D q gridMinimum gridInverseCellWidth gridSideCount < gridCellCount"
    by (simp_all add: gridIndex1D_def Let_def grid_values)
qed

lemma sort_by_key_identity:
  assumes "mset p = mset [0..<N]" and "p = srt keys"
  shows "sort_by_key srt keys (map int [0..<N]) = (map (\<lambda>i. keys ! i) p, map int p)"
proof -
  have "map (\<lambda>i. map int [0..<N] ! i) p = map int p"
    by (rule map_cong [OF refl]) (use perm_facts(1,3) [OF assms(1)] in \<open>auto simp add: in_set_conv_nth\<close>)
  then show ?thesis by (simp add: sort_by_key_def Let_def assms(2) [symmetric])
qed

lemma sortAndIdentify_run:
  fixes keys :: "int list"
  assumes n: "numObjects s0 = N" and k: "dev_particleGridIndices s0 = keys"
    and a: "dev_particleArrayIndices s0 = map int [0..<N]"
    and st: "dev_gridCellStartIndices s0 = replicate C (- 1)"
    and en: "dev_gridCellEndIndices s0 = replicate C (- 1)"
    and srt: "sorts srt keys" and len: "length keys = N"
    and rng: "list_all (\<lambda>k. 0 \<le> k \<and> k < int C) keys"
  obtains starts ends where
    "sortAndIdentify srt s0
     = Inr (s0\<lparr>dev_particleGridIndices := map (\<lambda>i. keys ! i) (srt keys),
                dev_particleArrayIndices := map int (srt keys),
                dev_gridCellStartIndices := starts,
                dev_gridCellEndIndices := ends\<rparr>)"
    and "length starts = C" and "length ends = C"
    and "\<And>c. 0 \<le> c \<Longrightarrow> c < int C \<Longrightarrow> 0 \<le> starts ! nat c \<Longrightarrow>
           [starts ! nat c..ends ! nat c]
           = map int (filter (\<lambda>j. map (\<lambda>i. keys ! i) (srt keys) ! j = c) [0..<N])"
    and "\<And>i. i < N \<Longrightarrow> 0 \<le> starts ! nat (keys ! i)"
proof -
  define p where "p = srt keys"
  let ?keys1 = "map (\<lambda>i. keys ! i) p"
  from srt have perm: "mset p = mset [0..<N]" and sorted1: "sorted ?keys1"
    by (simp_all add: sorts_def p_def len)
  note pf = perm_facts [OF perm]
  have len1: "length ?keys1 = N" using pf(1) by simp
  have setp: "set p = {0..<N}" using mset_eq_setD [OF perm] by simp
  have sub: "set ?keys1 = set keys"
  proof -
    have "set ?keys1 = (\<lambda>i. keys ! i) ` {0..<N}" using setp by simp
    also have "\<dots> = set keys" using len by (auto simp add: set_conv_nth)
    finally show ?thesis .
  qed
  have rng1: "list_all (\<lambda>k. 0 \<le> k \<and> k < int C) ?keys1"
    using rng unfolding list_all_iff sub .
  from table_facts [OF sorted1 len1 rng1] obtain starts ends where
    run: "launchE (fullBlocksPerGrid N) (kernIdentifyCellStartEnd N ?keys1)
            (replicate C (- 1), replicate C (- 1)) = Inr (starts, ends)"
    and ls: "length starts = C" and le: "length ends = C"
    and tab: "\<And>c. 0 \<le> c \<Longrightarrow> c < int C \<Longrightarrow> 0 \<le> starts ! nat c \<Longrightarrow>
           [starts ! nat c..ends ! nat c] = map int (filter (\<lambda>j. ?keys1 ! j = c) [0..<N])"
    and occ1: "\<And>k. k \<in> set ?keys1 \<Longrightarrow> 0 \<le> starts ! nat k"
    by blast
  have sk: "sort_by_key srt keys (map int [0..<N]) = (?keys1, map int p)"
    using perm p_def by (rule sort_by_key_identity)
  have run': "sortAndIdentify srt s0
     = Inr (s0\<lparr>dev_particleGridIndices := ?keys1,
                dev_particleArrayIndices := map int p,
                dev_gridCellStartIndices := starts,
                dev_gridCellEndIndices := ends\<rparr>)"
    by (simp add: sortAndIdentify_def Let_def n k a st en sk run)
  have occ: "0 \<le> starts ! nat (keys ! i)" if "i < N" for i
  proof (rule occ1)
    show "keys ! i \<in> set ?keys1" unfolding sub using that len by simp
  qed
  from run' ls le tab occ show ?thesis unfolding p_def by (rule that)
qed

lemma slot_kernel_result:
  assumes kern: "\<And>idx ys. kern idx ys
                   = (if idx < N then bindE (f idx) (\<lambda>w. Inr (ys[idx := g w])) else Inr ys)"
    and f: "\<And>i. i < N \<Longrightarrow> f i = Inr (v i)"
    and len: "length xs = N"
  shows "launchE (fullBlocksPerGrid N) kern xs = Inr (map (\<lambda>i. g (v i)) [0..<N])"
proof -
  have "launchE (fullBlocksPerGrid N) kern xs
        = foldE (\<lambda>i ys. bindE (f i) (\<lambda>w. Inr (ys[i := g w]))) [0..<N] xs"
    using kern by (rule launchE_slot_kernel)
  also have "\<dots> = Inr (fold (\<lambda>i ys. ys[i := g (v i)]) [0..<N] xs)"
    using f by (rule foldE_slots)
  also have "fold (\<lambda>i ys. ys[i := g (v i)]) [0..<N] xs = map (\<lambda>i. g (v i)) [0..<N]"
    using fold_slots [of N xs "\<lambda>i _. g (v i)"] len by simp
  finally show ?thesis .
qed

lemma keys_in_grid:
  assumes "list_all inScene pos"
  shows "list_all (\<lambda>k. 0 \<le> k \<and> k < int (nat gridCellCount))
           (map (\<lambda>q. gridIndex1D q gridMinimum gridInverseCellWidth gridSideCount) pos)"
  using assms key_in_grid by (simp add: list_all_iff grid_values)

lemma cell_count: "int (nat gridCellCount) = gridCellCount"
  by (simp add: grid_values)

lemma scattered_step_searched:
  assumes al: "allocated s" and scene: "list_all inScene (dev_pos s)"
    and srt: "sorts srt (dev_particleGridIndices (resetAndLabel s))"
  shows "\<exists>s'. stepSimulationScatteredGrid srt dt s = Inr s' \<and>
              numObjects s' = numObjects s \<and>
              dev_vel1 s'
                = map (\<lambda>i. clampGrid (searchedVelocityChange (numObjects s) i (dev_pos s) (dev_vel1 s)))
                    [0..<numObjects s] \<and>
              dev_pos s'
                = map (\<lambda>i. updatePos dt (dev_pos s ! i)
                             (clampGrid (searchedVelocityChange (numObjects s) i (dev_pos s)
                                           (dev_vel1 s))))
                    [0..<numObjects s]"
proof -
  let ?N = "numObjects s" and ?pos = "dev_pos s" and ?vel = "dev_vel1 s"
  let ?s0 = "resetAndLabel s"
  define keys where "keys = map (\<lambda>q. gridIndex1D q gridMinimum gridInverseCellWidth gridSideCount) ?pos"
  define p where "p = srt keys"
  from al have lenp: "length ?pos = ?N" and lenv: "length ?vel = ?N"
    and len2: "length (dev_vel2 s) = ?N"
    by (simp_all add: allocated_def)
  note ra = resetAndLabel_allocated [OF al]
  have k0: "dev_particleGridIndices ?s0 = keys" unfolding keys_def by (rule ra(4))
  have srt': "sorts srt keys" using srt unfolding k0 .
  have lenk: "length keys = ?N" using lenp by (simp add: keys_def)
  have rng: "list_all (\<lambda>k. 0 \<le> k \<and> k < int (nat gridCellCount)) keys"
    unfolding keys_def using scene by (rule keys_in_grid)
  have n0: "numObjects ?s0 = ?N" by simp
  obtain starts ends where
    run: "sortAndIdentify srt ?s0
     = Inr (?s0\<lparr>dev_particleGridIndices := map (\<lambda>i. keys ! i) (srt keys),
                dev_particleArrayIndices := map int (srt keys),
                dev_gridCellStartIndices := starts,
                dev_gridCellEndIndices := ends\<rparr>)"
    and ls: "length starts = nat gridCellCount" and le: "length ends = nat gridCellCount"
    and tab: "\<And>c. 0 \<le> c \<Longrightarrow> c < int (nat gridCellCount) \<Longrightarrow> 0 \<le> starts ! nat c \<Longrightarrow>
           [starts ! nat c..ends ! nat c]
           = map int (filter (\<lambda>j. map (\<lambda>i. keys ! i) (srt keys) ! j = c) [0..<?N])"
    and occ: "\<And>i. i < ?N \<Longrightarrow> 0 \<le> starts ! nat (keys ! i)"
    by (rule sortAndIdentify_run [OF n0 k0 ra(3) ra(1) ra(2) srt' lenk rng]) (rule that)
  have perm: "mset p = mset [0..<?N]" using srt' by (simp add: sorts_def p_def lenk)
  have thread: "scatteredVelocity gridSideCount gridMinimum gridInverseCellWidth starts ends
                  (map int p) ?pos ?vel idx
                = Inr (searchedVelocityChange ?N idx ?pos ?vel)" if "idx < ?N" for idx
    using lenp lenv scene perm ls le tab [folded p_def, unfolded cell_count] occ keys_def that
    by (rule scattered_thread)
  have kern: "launchE (fullBlocksPerGrid ?N)
                (kernUpdateVelNeighborSearchScattered ?N gridSideCount gridMinimum
                   gridInverseCellWidth starts ends (map int p) ?pos ?vel)
                (dev_vel2 s)
              = Inr (map (\<lambda>i. clampGrid (searchedVelocityChange ?N i ?pos ?vel)) [0..<?N])"
    by (rule slot_kernel_result [OF _ thread len2])
       (simp_all add: kernUpdateVelNeighborSearchScattered_def)
  let ?new = "map (\<lambda>i. clampGrid (searchedVelocityChange ?N i ?pos ?vel)) [0..<?N]"
  let ?s1 = "?s0\<lparr>dev_particleGridIndices := map (\<lambda>i. keys ! i) p,
                dev_particleArrayIndices := map int p,
                dev_gridCellStartIndices := starts,
                dev_gridCellEndIndices := ends\<rparr>"
  have step: "stepSimulationScatteredGrid srt dt s = Inr (swapAndMove dt (?s1\<lparr>dev_vel2 := ?new\<rparr>))"
    unfolding stepSimulationScatteredGrid_def run [folded p_def] bindE_simps
    using kern by simp
  have v: "dev_vel1 (swapAndMove dt (?s1\<lparr>dev_vel2 := ?new\<rparr>)) = ?new" by simp
  have q: "dev_pos (swapAndMove dt (?s1\<lparr>dev_vel2 := ?new\<rparr>))
           = map (\<lambda>i. updatePos dt (?pos ! i) (clampGrid (searchedVelocityChange ?N i ?pos ?vel)))
               [0..<?N]"
    using lenp by (simp add: swapAndMove_pos)
  have "numObjects (swapAndMove dt (?s1\<lparr>dev_vel2 := ?new\<rparr>)) = ?N" by simp
  with step v q show ?thesis by (intro exI [of _ "swapAndMove dt (?s1\<lparr>dev_vel2 := ?new\<rparr>)"] conjI)
qed

lemma naive_step_pos:
  assumes "allocated s"
  shows "dev_pos (stepSimulationNaive dt s)
         = map (\<lambda>i. updatePos dt (dev_pos s ! i)
                      (clampNaive (computeVelocityChange (numObjects s) i (dev_pos s) (dev_vel1 s))))
             [0..<numObjects s]"
proof -
  from assms have lenp: "length (dev_pos s) = numObjects s"
    and len2: "length (dev_vel2 s) = numObjects s"
    by (simp_all add: allocated_def)
  have "stepSimulationNaive dt s
        = swapAndMove dt (s\<lparr>dev_vel2 := map (\<lambda>i. clampNaive (computeVelocityChange (numObjects s) i
                                                       (dev_pos s) (dev_vel1 s)))
                                        [0..<numObjects s]\<rparr>)"
    unfolding stepSimulationNaive_def by (simp only: naive_kernel_slots [OF len2])
  then show ?thesis using lenp by (simp add: swapAndMove_pos)
qed

lemma covered_slots:
  assumes "neighborsCovered pos" and "length pos = N"
  shows "map (\<lambda>i. f (clampGrid (searchedVelocityChange N i pos vel)) i) [0..<N]
         = map (\<lambda>i. f (clampNaive (computeVelocityChange N i pos vel)) i) [0..<N]"
  using searched_eq_naive [OF assms] by (simp add: clampGrid_eq_clampNaive)

lemma scattered_step:
  assumes al: "allocated s" and scene: "list_all inScene (dev_pos s)"
    and srt: "sorts srt (dev_particleGridIndices (resetAndLabel s))"
    and cov: "neighborsCovered (dev_pos s)"
  shows "\<exists>s'. stepSimulationScatteredGrid srt dt s = Inr s' \<and>
              numObjects s' = numObjects s \<and>
              dev_vel1 s' = dev_vel1 (stepSimulationNaive dt s) \<and>
              dev_pos s' = dev_pos (stepSimulationNaive dt s)"
proof -
  from al have lenp: "length (dev_pos s) = numObjects s"
    and len2: "length (dev_vel2 s) = numObjects s"
    by (simp_all add: allocated_def)
  from scattered_step_searched [OF al scene srt, of dt] obtain s' where
    r: "stepSimulationScatteredGrid srt dt s = Inr s'" and n: "numObjects s' = numObjects s"
    and v: "dev_vel1 s'
            = map (\<lambda>i. clampGrid (searchedVelocityChange (numObjects s) i (dev_pos s) (dev_vel1 s)))
                [0..<numObjects s]"
    and q: "dev_pos s'
            = map (\<lambda>i. updatePos dt (dev_pos s ! i)
                         (clampGrid (searchedVelocityChange (numObjects s) i (dev_pos s)
                                       (dev_vel1 s))))
                [0..<numObjects s]"
    by blast
  have v': "dev_vel1 s' = dev_vel1 (stepSimulationNaive dt s)"
    unfolding v naive_step_vel [OF len2]
    by (rule covered_slots [OF cov lenp, of "\<lambda>w i. w"])
  have q': "dev_pos s' = dev_pos (stepSimulationNaive dt s)"
    unfolding q naive_step_pos [OF al]
    by (rule covered_slots [OF cov lenp, of "\<lambda>w i. updatePos dt (dev_pos s ! i) w"])
  from r n v' q' show ?thesis by (intro exI [of _ s'] conjI)
qed

lemma coherentReorder_fields_of:
  assumes al: "allocated s"
    and perm: "mset (srt (dev_particleGridIndices (resetAndLabel s))) = mset [0..<numObjects s]"
    and run: "coherentReorder srt s = Inr s'"
  shows "numObjects s' = numObjects s"
    and "dev_vel2 s' = dev_vel2 s"
    and "dev_particleArrayIndices s' = map int (srt (dev_particleGridIndices (resetAndLabel s)))"
    and "dev_particleGridIndices s'
         = map (\<lambda>i. dev_particleGridIndices (resetAndLabel s) ! i)
             (srt (dev_particleGridIndices (resetAndLabel s)))"
    and "dev_posGridIndices s' = dev_particleGridIndices s'"
    and "dev_velGridIndices s' = dev_particleGridIndices s'"
    and "dev_pos s' = map (\<lambda>i. dev_pos s ! i) (srt (dev_particleGridIndices (resetAndLabel s)))"
    and "dev_vel1 s' = map (\<lambda>i. dev_vel1 s ! i) (srt (dev_particleGridIndices (resetAndLabel s)))"
proof -
  let ?s0 = "resetAndLabel s"
  let ?keys = "dev_particleGridIndices ?s0"
  let ?p = "srt ?keys"
  let ?c = "?s0\<lparr>dev_posGridIndices := ?keys, dev_velGridIndices := ?keys\<rparr>"
  from run obtain s1 where s1: "sortAndIdentify srt ?c = Inr s1"
    and s': "s' = s1\<lparr>dev_posGridIndices := fst (sort_by_key srt (dev_posGridIndices s1) (dev_pos s1)),
                     dev_pos := snd (sort_by_key srt (dev_posGridIndices s1) (dev_pos s1)),
                     dev_velGridIndices := fst (sort_by_key srt (dev_velGridIndices s1) (dev_vel1 s1)),
                     dev_vel1 := snd (sort_by_key srt (dev_velGridIndices s1) (dev_vel1 s1))\<rparr>"
    by (auto simp add: coherentReorder_def Let_def bindE_eq_Inr)
  note f = sortAndIdentify_fields [OF s1]
  have sk: "sort_by_key srt ?keys (map int [0..<numObjects s]) = (map (\<lambda>i. ?keys ! i) ?p, map int ?p)"
    using perm refl by (rule sort_by_key_identity)
  have ai: "dev_particleArrayIndices ?c = map int [0..<numObjects s]"
    using resetAndLabel_allocated(3) [OF al] by simp
  show "numObjects s' = numObjects s" unfolding s' using f(1) by simp
  show "dev_vel2 s' = dev_vel2 s" unfolding s' using f(4) by simp
  show "dev_particleArrayIndices s' = map int ?p" unfolding s' using f(8) ai sk by simp
  show g: "dev_particleGridIndices s' = map (\<lambda>i. ?keys ! i) ?p"
    unfolding s' using f(7) ai sk by simp
  show "dev_posGridIndices s' = dev_particleGridIndices s'"
    unfolding g unfolding s' using f(5) by (simp add: sort_by_key_def Let_def)
  show "dev_velGridIndices s' = dev_particleGridIndices s'"
    unfolding g unfolding s' using f(6) by (simp add: sort_by_key_def Let_def)
  show "dev_pos s' = map (\<lambda>i. dev_pos s ! i) ?p"
    unfolding s' using f(2,5) by (simp add: sort_by_key_def Let_def)
  show "dev_vel1 s' = map (\<lambda>i. dev_vel1 s ! i) ?p"
    unfolding s' using f(3,6) by (simp add: sort_by_key_def Let_def)
qed

lemma coherentReorder_run:
  assumes al: "allocated s" and scene: "list_all inScene (dev_pos s)"
    and srt: "sorts srt (dev_particleGridIndices (resetAndLabel s))"
  obtains s' where "coherentReorder srt s = Inr s'"
    and "length (dev_gridCellStartIndices s') = nat gridCellCount"
    and "length (dev_gridCellEndIndices s') = nat gridCellCount"
    and "\<And>c. 0 \<le> c \<Longrightarrow> c < gridCellCount \<Longrightarrow> 0 \<le> dev_gridCellStartIndices s' ! nat c \<Longrightarrow>
           [dev_gridCellStartIndices s' ! nat c..dev_gridCellEndIndices s' ! nat c]
           = map int (filter (\<lambda>j. map (\<lambda>i. dev_particleGridIndices (resetAndLabel s) ! i)
                                   (srt (dev_particleGridIndices (resetAndLabel s))) ! j = c)
                        [0..<numObjects s])"
    and "\<And>i. i < numObjects s \<Longrightarrow>
           0 \<le> dev_gridCellStartIndices s' ! nat (dev_particleGridIndices (resetAndLabel s) ! i)"
proof -
  let ?N = "numObjects s"
  let ?s0 = "resetAndLabel s"
  let ?keys = "dev_particleGridIndices ?s0"
  let ?c = "?s0\<lparr>dev_posGridIndices := ?keys, dev_velGridIndices := ?keys\<rparr>"
  from al have lenp: "length (dev_pos s) = ?N" by (simp add: allocated_def)
  note ra = resetAndLabel_allocated [OF al]
  have lenk: "length ?keys = ?N" using lenp by (simp add: ra(4))
  have rng: "list_all (\<lambda>k. 0 \<le> k \<and> k < int (nat gridCellCount)) ?keys"
    unfolding ra(4) using scene by (rule keys_in_grid)
  have n0: "numObjects ?c = ?N" by simp
  have k0: "dev_particleGridIndices ?c = ?keys" by simp
  have a0: "dev_particleArrayIndices ?c = map int [0..<?N]" using ra(3) by simp
  have s0: "dev_gridCellStartIndices ?c = replicate (nat gridCellCount) (- 1)" using ra(1) by simp
  have e0: "dev_gridCellEndIndices ?c = replicate (nat gridCellCount) (- 1)" using ra(2) by simp
  obtain starts ends where
    run: "sortAndIdentify srt ?c
     = Inr (?c\<lparr>dev_particleGridIndices := map (\<lambda>i. ?keys ! i) (srt ?keys),
                dev_particleArrayIndices := map int (srt ?keys),
                dev_gridCellStartIndices := starts,
                dev_gridCellEndIndices := ends\<rparr>)"
    and ls: "length starts = nat gridCellCount" and le: "length ends = nat gridCellCount"
    and tab: "\<And>c. 0 \<le> c \<Longrightarrow> c < int (nat gridCellCount) \<Longrightarrow> 0 \<le> starts ! nat c \<Longrightarrow>
           [starts ! nat c..ends ! nat c]
           = map int (filter (\<lambda>j. map (\<lambda>i. ?keys ! i) (srt ?keys) ! j = c) [0..<?N])"
    and occ: "\<And>i. i < ?N \<Longrightarrow> 0 \<le> starts ! nat (?keys ! i)"
    by (rule sortAndIdentify_run [OF n0 k0 a0 s0 e0 srt lenk rng]) (rule that)
  let ?s1 = "?c\<lparr>dev_particleGridIndices := map (\<lambda>i. ?keys ! i) (srt ?keys),
                dev_particleArrayIndices := map int (srt ?keys),
                dev_gridCellStartIndices := starts,
                dev_gridCellEndIndices := ends\<rparr>"
  let ?s2 = "?s1\<lparr>dev_posGridIndices := fst (sort_by_key srt (dev_posGridIndices ?s1) (dev_pos ?s1)),
                     dev_pos := snd (sort_by_key srt (dev_posGridIndices ?s1) (dev_pos ?s1)),
                     dev_velGridIndices := fst (sort_by_key srt (dev_velGridIndices ?s1) (dev_vel1 ?s1)),
                     dev_vel1 := snd (sort_by_key srt (dev_velGridIndices ?s1) (dev_vel1 ?s1))\<rparr>"
  have r: "coherentReorder srt s = Inr ?s2"
    unfolding coherentReorder_def Let_def by (simp add: run)
  have st: "dev_gridCellStartIndices ?s2 = starts" and en: "dev_gridCellEndIndices ?s2 = ends"
    by simp_all
  show ?thesis
  proof (rule that [OF r])
    show "length (dev_gridCellStartIndices ?s2) = nat gridCellCount" unfolding st by (rule ls)
    show "length (dev_gridCellEndIndices ?s2) = nat gridCellCount" unfolding en by (rule le)
    show "[dev_gridCellStartIndices ?s2 ! nat c..dev_gridCellEndIndices ?s2 ! nat c]
           = map int (filter (\<lambda>j. map (\<lambda>i. ?keys ! i) (srt ?keys) ! j = c) [0..<?N])"
      if "0 \<le> c" "c < gridCellCount" "0 \<le> dev_gridCellStartIndices ?s2 ! nat c" for c
      unfolding st en by (rule tab) (use that in \<open>simp_all add: cell_count\<close>)
    show "0 \<le> dev_gridCellStartIndices ?s2 ! nat (?keys ! i)" if "i < ?N" for i
      unfolding st using that by (rule occ)
  qed
qed

lemma map_via_perm:
  assumes "length p = N"
  shows "map (\<lambda>j. f (p ! j)) [0..<N] = map f p"
  using assms by (intro nth_equalityI) simp_all


lemma coherent_step_searched:
  assumes al: "allocated s" and scene: "list_all inScene (dev_pos s)"
    and srt: "sorts srt (dev_particleGridIndices (resetAndLabel s))"
  shows "\<exists>s'. stepSimulationCoherentGrid srt dt s = Inr s' \<and>
              numObjects s' = numObjects s \<and>
              dev_particleArrayIndices s'
                = map int (srt (dev_particleGridIndices (resetAndLabel s))) \<and>
              dev_vel1 s'
                = map (\<lambda>i. clampGrid (searchedVelocityChange (numObjects s) i (dev_pos s) (dev_vel1 s)))
                    (srt (dev_particleGridIndices (resetAndLabel s))) \<and>
              dev_pos s'
                = map (\<lambda>i. updatePos dt (dev_pos s ! i)
                             (clampGrid (searchedVelocityChange (numObjects s) i (dev_pos s)
                                           (dev_vel1 s))))
                    (srt (dev_particleGridIndices (resetAndLabel s)))"
proof -
  let ?N = "numObjects s" and ?pos = "dev_pos s" and ?vel = "dev_vel1 s"
  let ?keys = "dev_particleGridIndices (resetAndLabel s)"
  let ?p = "srt ?keys"
  from al have lenp: "length ?pos = ?N" and lenv: "length ?vel = ?N"
    and len2: "length (dev_vel2 s) = ?N"
    by (simp_all add: allocated_def)
  note ra = resetAndLabel_allocated [OF al]
  have lenk: "length ?keys = ?N" using lenp by (simp add: ra(4))
  have perm: "mset ?p = mset [0..<?N]" using srt by (simp add: sorts_def lenk)
  note pf = perm_facts [OF perm]
  obtain s1 where run: "coherentReorder srt s = Inr s1"
    and ls: "length (dev_gridCellStartIndices s1) = nat gridCellCount"
    and le: "length (dev_gridCellEndIndices s1) = nat gridCellCount"
    and tab: "\<And>c. 0 \<le> c \<Longrightarrow> c < gridCellCount \<Longrightarrow> 0 \<le> dev_gridCellStartIndices s1 ! nat c \<Longrightarrow>
           [dev_gridCellStartIndices s1 ! nat c..dev_gridCellEndIndices s1 ! nat c]
           = map int (filter (\<lambda>j. map (\<lambda>i. ?keys ! i) ?p ! j = c) [0..<?N])"
    and occ: "\<And>i. i < ?N \<Longrightarrow> 0 \<le> dev_gridCellStartIndices s1 ! nat (?keys ! i)"
    by (rule coherentReorder_run [OF al scene srt]) (rule that)
  note fs = coherentReorder_fields_of [OF al perm run]
  have thread: "coherentVelocity gridSideCount gridMinimum gridInverseCellWidth
                  (dev_gridCellStartIndices s1) (dev_gridCellEndIndices s1)
                  (map (\<lambda>i. ?pos ! i) ?p) (map (\<lambda>i. ?vel ! i) ?p) idx
                = Inr (searchedVelocityChange ?N (?p ! idx) ?pos ?vel)" if "idx < ?N" for idx
    using lenp lenv scene perm ls le tab occ ra(4) that
    by (rule coherent_thread)
  let ?nv = "\<lambda>i. clampGrid (searchedVelocityChange ?N i ?pos ?vel)"
  let ?new = "map (\<lambda>j. ?nv (?p ! j)) [0..<?N]"
  have kern: "launchE (fullBlocksPerGrid (numObjects s1))
                (kernUpdateVelNeighborSearchCoherent (numObjects s1) gridSideCount gridMinimum
                   gridInverseCellWidth (dev_gridCellStartIndices s1) (dev_gridCellEndIndices s1)
                   (dev_pos s1) (dev_vel1 s1))
                (dev_vel2 s1)
              = Inr ?new"
    unfolding fs(1,2,7,8)
    by (rule slot_kernel_result [OF _ thread len2])
       (simp_all add: kernUpdateVelNeighborSearchCoherent_def)
  have step: "stepSimulationCoherentGrid srt dt s = Inr (swapAndMove dt (s1\<lparr>dev_vel2 := ?new\<rparr>))"
    unfolding stepSimulationCoherentGrid_def run bindE_simps kern ..
  let ?s' = "swapAndMove dt (s1\<lparr>dev_vel2 := ?new\<rparr>)"
  have n: "numObjects ?s' = ?N" using fs(1) by simp
  have a: "dev_particleArrayIndices ?s' = map int ?p"
    using fs(3) by (simp add: swapAndMove_def Let_def)
  have v: "dev_vel1 ?s' = map ?nv ?p"
  proof -
    have "dev_vel1 ?s' = map (\<lambda>j. ?nv (?p ! j)) [0..<?N]" by simp
    also have "\<dots> = map ?nv ?p" using pf(1) by (rule map_via_perm)
    finally show ?thesis .
  qed
  have q: "dev_pos ?s' = map (\<lambda>i. updatePos dt (?pos ! i) (?nv i)) ?p"
  proof -
    have l1: "length (dev_pos (s1\<lparr>dev_vel2 := ?new\<rparr>)) = numObjects (s1\<lparr>dev_vel2 := ?new\<rparr>)"
      using fs(1,7) pf(1) by simp
    have "dev_pos ?s' = map (\<lambda>j. updatePos dt (map (\<lambda>i. ?pos ! i) ?p ! j) (?new ! j)) [0..<?N]"
      unfolding swapAndMove_pos [OF l1] using fs(1,7) by simp
    also have "\<dots> = map (\<lambda>j. (\<lambda>i. updatePos dt (?pos ! i) (?nv i)) (?p ! j)) [0..<?N]"
      using pf(1) by simp
    also have "\<dots> = map (\<lambda>i. updatePos dt (?pos ! i) (?nv i)) ?p"
      using pf(1) by (rule map_via_perm)
    finally show ?thesis .
  qed
  from step n a v q show ?thesis by (intro exI [of _ ?s'] conjI)
qed


lemma sorts_stable: "sorts stable_sorter keys"
  by (simp add: sorts_def stable_sorter_def sorted_sort_key o_def
      flip: map_map)


section \<open>The three strategies compared\<close>

lemma glm_length_x_axis: "glm_length (Vec3 a 0 0) = \<bar>a\<bar>"
  by (simp add: glm_length_def glm_dot_def)

text \<open>The scaled coordinates of the example positions, as the kernels compute them.\<close>

lemma scaled_values:
  "float32 (float32 111 * 13421773 / 134217728) = 5819597 / 524288"
  "float32 (float32 109 * 13421773 / 134217728) = 11429479 / 1048576"
  "float32 (float32 110 * 13421773 / 134217728) = 11"
  "float32 (float32 (131071995 / 1048576) * 13421773 / 134217728) = 13107199 / 1048576"
  "float32 (float32 (17039359 / 131072) * 13421773 / 134217728) = 13"
proof -
  have a: "float32 111 = 111" "float32 109 = 109" "float32 110 = 110"
    by (subst float32_eval [of 6], simp_all add: round_ties_even_def power_int_minus_divide)+
  have b: "float32 (131071995 / 1048576) = 16383999 / 131072"
    by (subst float32_eval [of 6]) (simp_all add: round_ties_even_def power_int_minus_divide)
  have c: "float32 (17039359 / 131072) = 130"
    by (subst float32_eval [of 7]) (simp_all add: round_ties_even_def power_int_minus_divide)
  show "float32 (float32 111 * 13421773 / 134217728) = 5819597 / 524288"
    unfolding a by (subst float32_eval [of 3]) (simp_all add: round_ties_even_def power_int_minus_divide)
  show "float32 (float32 109 * 13421773 / 134217728) = 11429479 / 1048576"
    unfolding a by (subst float32_eval [of 3]) (simp_all add: round_ties_even_def power_int_minus_divide)
  show "float32 (float32 110 * 13421773 / 134217728) = 11"
    unfolding a by (subst float32_eval [of 3]) (simp_all add: round_ties_even_def power_int_minus_divide)
  show "float32 (float32 (131071995 / 1048576) * 13421773 / 134217728) = 13107199 / 1048576"
    unfolding b by (subst float32_eval [of 3]) (simp_all add: round_ties_even_def power_int_minus_divide)
  show "float32 (float32 (17039359 / 131072) * 13421773 / 134217728) = 13"
    unfolding c by (subst float32_eval [of 3]) (simp_all add: round_ties_even_def power_int_minus_divide)
qed

lemma crossed_raw:
  "computeVelocityChange 2 0 crossedPos crossedVel = Vec3 (9 / 50) 0 0"
  "computeVelocityChange 2 (Suc 0) crossedPos crossedVel = Vec3 (- (9 / 50)) 0 0"
  by (simp_all add: computeVelocityChange_def naiveRule1_def naiveRule2_def naiveRule3_def
      crossedPos_def crossedVel_def upt2 glm_distance_def glm_length_x_axis
      rule1Distance_def rule2Distance_def rule3Distance_def plus_vec3_def zero_vec3_def
      minus_vec3_def rule1Term_def rule2Term_def rule3Term_def averaged_def vec3_eq_iff
      rule1Scale_def rule2Scale_def rule3Scale_def vscale_def vdivide_def)

lemma crossed_naive:
  "dev_vel1 (stepSimulationNaive dt (simOf crossedPos crossedVel))
   = [Vec3 (9 / 50) 0 0, Vec3 (- (9 / 50)) 0 0]"
proof -
  have "length crossedPos = 2" by (simp add: crossedPos_def)
  then have "dev_vel1 (stepSimulationNaive dt (simOf crossedPos crossedVel))
        = [clampNaive (computeVelocityChange 2 0 crossedPos crossedVel),
           clampNaive (computeVelocityChange 2 (Suc 0) crossedPos crossedVel)]"
    by (simp add: naive_step_vel upt2)
  then show ?thesis
    unfolding crossed_raw by (simp add: clampNaive_def glm_length_x_axis maxSpeed_def)
qed

lemma crossed_allocated_any: "length vel = 2 \<Longrightarrow> allocated (simOf crossedPos vel)"
  by (rule allocated_simOf) (simp add: crossedPos_def)

lemma crossed_allocated: "allocated (simOf crossedPos crossedVel)"
  by (rule crossed_allocated_any) (simp add: crossedVel_def)

lemma crossed_scene: "list_all inScene (dev_pos (simOf crossedPos crossedVel))"
  by (simp add: crossedPos_def inScene_def scene_scale_def)

lemma crossed_keys_any:
  assumes "length vel = 2"
  shows "dev_particleGridIndices (resetAndLabel (simOf crossedPos vel)) = [5577, 5576]"
  unfolding resetAndLabel_allocated(4) [OF crossed_allocated_any [OF assms]]
  by (simp add: crossedPos_def gridIndex1D_def gridIndex3Dto1D_def grid_values scaled_values Let_def)


lemma crossed_perm: "stable_sorter [5577, 5576] = [Suc 0, 0]"
  by (simp add: stable_sorter_def upt2)

text \<open>
  The boid at \<open>(1, 0, 0)\<close> lies in the cell \<open>(11, 11, 11)\<close> and searches towards the smaller
  coordinates, the boid at \<open>(-1, 0, 0)\<close> lies in the cell \<open>(10, 11, 11)\<close> and searches
  towards the larger \<open>x\<close>: each finds the other.
\<close>

lemma crossed_searched:
  "inSearchedCells crossedPos 0 0" "inSearchedCells crossedPos 0 (Suc 0)"
  "inSearchedCells crossedPos (Suc 0) 0" "inSearchedCells crossedPos (Suc 0) (Suc 0)"
  by (simp_all add: inSearchedCells_def crossedPos_def gridIndex1D_def candidateCells_list
      biasAlongAxes_sel gridIndex3Dto1D_def grid_values scaled_values c_round_cast Let_def)

lemma crossed_covered: "neighborsCovered (dev_pos (simOf crossedPos crossedVel))"
proof -
  have "length crossedPos = 2" by (simp add: crossedPos_def)
  then show ?thesis by (simp add: neighborsCovered_def upt2 crossed_searched)
qed







lemma clamp_cases:
  "glm_length (clampNaive raw) \<le> maxSpeed"
  "maxSpeed < glm_length raw \<Longrightarrow> clampNaive raw = vscale raw (maxSpeed / glm_length raw)"
  "maxSpeed < glm_length raw \<Longrightarrow> glm_length (clampNaive raw) = maxSpeed"
  "glm_length raw \<le> maxSpeed \<Longrightarrow> clampNaive raw = raw"
proof -
  show "glm_length (clampNaive raw) \<le> maxSpeed" by (rule clampNaive_le)
  show "clampNaive raw = vscale raw (maxSpeed / glm_length raw)" if "maxSpeed < glm_length raw"
    using that by (rule clampNaive_rescaled(1))
  show "glm_length (clampNaive raw) = maxSpeed" if "maxSpeed < glm_length raw"
    using that by (rule clampNaive_rescaled(2))
  show "clampNaive raw = raw" if "glm_length raw \<le> maxSpeed"
    using that by (simp add: clampNaive_def)
qed

lemma scattered_step_Inr:
  assumes al: "allocated s" and run: "stepSimulationScatteredGrid srt dt s = Inr s'"
    and i: "i < numObjects s"
  shows "\<exists>s1 raw. sortAndIdentify srt (resetAndLabel s) = Inr s1 \<and>
           scatteredVelocity gridSideCount gridMinimum gridInverseCellWidth
             (dev_gridCellStartIndices s1) (dev_gridCellEndIndices s1)
             (dev_particleArrayIndices s1) (dev_pos s1) (dev_vel1 s1) i = Inr raw \<and>
           dev_vel1 s' ! i = clampGrid raw"
proof -
  from run obtain s1 vel2 where
    a: "sortAndIdentify srt (resetAndLabel s) = Inr s1"
    and b: "launchE (fullBlocksPerGrid (numObjects s1))
              (kernUpdateVelNeighborSearchScattered (numObjects s1) gridSideCount gridMinimum
                 gridInverseCellWidth (dev_gridCellStartIndices s1) (dev_gridCellEndIndices s1)
                 (dev_particleArrayIndices s1) (dev_pos s1) (dev_vel1 s1))
              (dev_vel2 s1) = Inr vel2"
    and c: "s' = swapAndMove dt (s1\<lparr>dev_vel2 := vel2\<rparr>)"
    unfolding stepSimulationScatteredGrid_def bindE_eq_Inr by auto
  note f = sortAndIdentify_fields [OF a]
  have len: "length (dev_vel2 s1) = numObjects s1"
    using al f(1,4) by (simp add: allocated_def)
  have i1: "i < numObjects s1" using i f(1) by simp
  from scattered_kernel_Inr [OF b len i1] obtain raw where
    "scatteredVelocity gridSideCount gridMinimum gridInverseCellWidth
       (dev_gridCellStartIndices s1) (dev_gridCellEndIndices s1)
       (dev_particleArrayIndices s1) (dev_pos s1) (dev_vel1 s1) i = Inr raw"
    and "vel2 ! i = clampGrid raw" by blast
  moreover have "dev_vel1 s' = vel2" unfolding c by simp
  ultimately show ?thesis using a by (intro exI [of _ s1] exI [of _ raw] conjI) simp_all
qed

lemma coherent_step_Inr:
  assumes al: "allocated s" and run: "stepSimulationCoherentGrid srt dt s = Inr s'"
    and i: "i < numObjects s"
  shows "\<exists>s1 raw. coherentReorder srt s = Inr s1 \<and>
           coherentVelocity gridSideCount gridMinimum gridInverseCellWidth
             (dev_gridCellStartIndices s1) (dev_gridCellEndIndices s1)
             (dev_pos s1) (dev_vel1 s1) i = Inr raw \<and>
           dev_vel1 s' ! i = clampGrid raw"
proof -
  from run obtain s1 vel2 where
    a: "coherentReorder srt s = Inr s1"
    and b: "launchE (fullBlocksPerGrid (numObjects s1))
              (kernUpdateVelNeighborSearchCoherent (numObjects s1) gridSideCount gridMinimum
                 gridInverseCellWidth (dev_gridCellStartIndices s1) (dev_gridCellEndIndices s1)
                 (dev_pos s1) (dev_vel1 s1))
              (dev_vel2 s1) = Inr vel2"
    and c: "s' = swapAndMove dt (s1\<lparr>dev_vel2 := vel2\<rparr>)"
    unfolding stepSimulationCoherentGrid_def bindE_eq_Inr by auto
  note f = coherentReorder_fields [OF a]
  have len: "length (dev_vel2 s1) = numObjects s1"
    using al f by (simp add: allocated_def)
  have i1: "i < numObjects s1" using i f(1) by simp
  from coherent_kernel_Inr [OF b len i1] obtain raw where
    "coherentVelocity gridSideCount gridMinimum gridInverseCellWidth
       (dev_gridCellStartIndices s1) (dev_gridCellEndIndices s1)
       (dev_pos s1) (dev_vel1 s1) i = Inr raw"
    and "vel2 ! i = clampGrid raw" by blast
  moreover have "dev_vel1 s' = vel2" unfolding c by simp
  ultimately show ?thesis using a by (intro exI [of _ s1] exI [of _ raw] conjI) simp_all
qed

text \<open>
  Claim C5. After a step of any of the three strategies, from a state whose buffers hold
  \<open>numObjects\<close> entries, every stored velocity has a length of at most \<^verbatim>\<open>maxSpeed\<close>. The
  stored velocity is the clamp of the velocity that the rules compose for the slot: by
  \<^verbatim>\<open>computeVelocityChange\<close> in the brute-force step, by the neighbour search of the thread in
  the two grid steps. The clamp of the grid kernels is the clamp of the brute-force kernel;
  it scales a longer vector by \<open>maxSpeed / length\<close>, a positive factor, to the length
  \<^verbatim>\<open>maxSpeed\<close>, and leaves any other vector as it is.
\<close>

theorem speed_cap:
  assumes "allocated s"
  shows "(\<forall>i<numObjects s.
            dev_vel1 (stepSimulationNaive dt s) ! i
              = clampNaive (computeVelocityChange (numObjects s) i (dev_pos s) (dev_vel1 s)) \<and>
            glm_length (dev_vel1 (stepSimulationNaive dt s) ! i) \<le> maxSpeed) \<and>
         (\<forall>s'. stepSimulationScatteredGrid srt dt s = Inr s' \<longrightarrow>
            (\<forall>i<numObjects s.
               (\<exists>s1 raw. sortAndIdentify srt (resetAndLabel s) = Inr s1 \<and>
                  scatteredVelocity gridSideCount gridMinimum gridInverseCellWidth
                    (dev_gridCellStartIndices s1) (dev_gridCellEndIndices s1)
                    (dev_particleArrayIndices s1) (dev_pos s1) (dev_vel1 s1) i = Inr raw \<and>
                  dev_vel1 s' ! i = clampGrid raw) \<and>
               glm_length (dev_vel1 s' ! i) \<le> maxSpeed)) \<and>
         (\<forall>s'. stepSimulationCoherentGrid srt dt s = Inr s' \<longrightarrow>
            (\<forall>i<numObjects s.
               (\<exists>s1 raw. coherentReorder srt s = Inr s1 \<and>
                  coherentVelocity gridSideCount gridMinimum gridInverseCellWidth
                    (dev_gridCellStartIndices s1) (dev_gridCellEndIndices s1)
                    (dev_pos s1) (dev_vel1 s1) i = Inr raw \<and>
                  dev_vel1 s' ! i = clampGrid raw) \<and>
               glm_length (dev_vel1 s' ! i) \<le> maxSpeed)) \<and>
         (\<forall>raw. clampGrid raw = clampNaive raw \<and>
            glm_length (clampNaive raw) \<le> maxSpeed \<and>
            (maxSpeed < glm_length raw \<longrightarrow>
               clampNaive raw = vscale raw (maxSpeed / glm_length raw) \<and>
               glm_length (clampNaive raw) = maxSpeed) \<and>
            (glm_length raw \<le> maxSpeed \<longrightarrow> clampNaive raw = raw))"
proof (intro conjI allI impI)
  fix i assume i: "i < numObjects s"
  from assms have len2: "length (dev_vel2 s) = numObjects s" by (simp add: allocated_def)
  show n: "dev_vel1 (stepSimulationNaive dt s) ! i
        = clampNaive (computeVelocityChange (numObjects s) i (dev_pos s) (dev_vel1 s))"
    using i by (simp add: naive_step_vel [OF len2])
  show "glm_length (dev_vel1 (stepSimulationNaive dt s) ! i) \<le> maxSpeed"
    unfolding n by (rule clamp_cases(1))
next
  fix s' i assume run: "stepSimulationScatteredGrid srt dt s = Inr s'" and i: "i < numObjects s"
  show e: "\<exists>s1 raw. sortAndIdentify srt (resetAndLabel s) = Inr s1 \<and>
          scatteredVelocity gridSideCount gridMinimum gridInverseCellWidth
            (dev_gridCellStartIndices s1) (dev_gridCellEndIndices s1)
            (dev_particleArrayIndices s1) (dev_pos s1) (dev_vel1 s1) i = Inr raw \<and>
          dev_vel1 s' ! i = clampGrid raw"
    using assms run i by (rule scattered_step_Inr)
  then obtain raw where "dev_vel1 s' ! i = clampGrid raw" by blast
  then show "glm_length (dev_vel1 s' ! i) \<le> maxSpeed"
    by (simp add: clampGrid_eq_clampNaive clamp_cases(1))
next
  fix s' i assume run: "stepSimulationCoherentGrid srt dt s = Inr s'" and i: "i < numObjects s"
  show e: "\<exists>s1 raw. coherentReorder srt s = Inr s1 \<and>
          coherentVelocity gridSideCount gridMinimum gridInverseCellWidth
            (dev_gridCellStartIndices s1) (dev_gridCellEndIndices s1)
            (dev_pos s1) (dev_vel1 s1) i = Inr raw \<and>
          dev_vel1 s' ! i = clampGrid raw"
    using assms run i by (rule coherent_step_Inr)
  then obtain raw where "dev_vel1 s' ! i = clampGrid raw" by blast
  then show "glm_length (dev_vel1 s' ! i) \<le> maxSpeed"
    by (simp add: clampGrid_eq_clampNaive clamp_cases(1))
next
  fix raw
  show "clampGrid raw = clampNaive raw" by (rule clampGrid_eq_clampNaive)
  show "glm_length (clampNaive raw) \<le> maxSpeed" by (rule clamp_cases(1))
  show "clampNaive raw = vscale raw (maxSpeed / glm_length raw)" if "maxSpeed < glm_length raw"
    using that by (rule clamp_cases(2))
  show "glm_length (clampNaive raw) = maxSpeed" if "maxSpeed < glm_length raw"
    using that by (rule clamp_cases(3))
  show "clampNaive raw = raw" if "glm_length raw \<le> maxSpeed"
    using that by (rule clamp_cases(4))
qed


lemma fast_allocated: "allocated (simOf fastPos fastVel)"
  by (rule allocated_simOf) (simp add: fastPos_def fastVel_def)

lemma fast_scene: "list_all inScene (dev_pos (simOf fastPos fastVel))"
  by (simp add: fastPos_def inScene_def scene_scale_def)

lemma fast_raw: "computeVelocityChange 1 0 fastPos fastVel = Vec3 3 0 0"
  by (simp add: computeVelocityChange_def naiveRule1_def naiveRule2_def naiveRule3_def
      fastPos_def fastVel_def plus_vec3_def zero_vec3_def
      minus_vec3_def rule1Term_def rule2Term_def rule3Term_def averaged_def vec3_eq_iff
      vscale_def vdivide_def)

text \<open>
  A boid at the origin moving at \<open>(3, 0, 0)\<close>: the rules leave the velocity as it is, the
  brute-force step stores \<open>(1, 0, 0)\<close>, and the two grid steps return with a velocity within
  the cap.
\<close>

theorem speed_cap_witness:
  "allocated (simOf fastPos fastVel) \<and>
   computeVelocityChange 1 0 fastPos fastVel = Vec3 3 0 0 \<and>
   dev_vel1 (stepSimulationNaive (1 / 5) (simOf fastPos fastVel)) ! 0 = Vec3 1 0 0 \<and>
   glm_length (dev_vel1 (stepSimulationNaive (1 / 5) (simOf fastPos fastVel)) ! 0) \<le> maxSpeed \<and>
   (\<exists>s'. stepSimulationScatteredGrid stable_sorter (1 / 5) (simOf fastPos fastVel) = Inr s' \<and>
         glm_length (dev_vel1 s' ! 0) \<le> maxSpeed) \<and>
   (\<exists>s'. stepSimulationCoherentGrid stable_sorter (1 / 5) (simOf fastPos fastVel) = Inr s' \<and>
         glm_length (dev_vel1 s' ! 0) \<le> maxSpeed) \<and>
   clampNaive (Vec3 3 0 0) = Vec3 1 0 0 \<and> glm_length (clampNaive (Vec3 3 0 0)) = maxSpeed \<and>
   clampNaive (Vec3 (1 / 2) 0 0) = Vec3 (1 / 2) 0 0"
proof -
  note T = speed_cap [OF fast_allocated, of "1 / 5" stable_sorter]
  have i: "0 < numObjects (simOf fastPos fastVel)" by (simp add: fastPos_def)
  have n0: "length fastPos = 1" by (simp add: fastPos_def)
  have big: "maxSpeed < glm_length (Vec3 3 0 0)" by (simp add: glm_length_x_axis maxSpeed_def)
  have small: "glm_length (Vec3 (1 / 2) 0 0) \<le> maxSpeed"
    by (simp add: glm_length_x_axis maxSpeed_def)
  note C = T [THEN conjunct2, THEN conjunct2, THEN conjunct2, rule_format]
  have c3: "clampNaive (Vec3 3 0 0) = Vec3 1 0 0"
    using C [of "Vec3 3 0 0", THEN conjunct2, THEN conjunct2, THEN conjunct1, rule_format, OF big]
    by (simp add: vscale_def glm_length_x_axis maxSpeed_def)
  have c3l: "glm_length (clampNaive (Vec3 3 0 0)) = maxSpeed"
    using C [of "Vec3 3 0 0", THEN conjunct2, THEN conjunct2, THEN conjunct1, rule_format, OF big]
    by (rule conjunct2)
  have c12: "clampNaive (Vec3 (1 / 2) 0 0) = Vec3 (1 / 2) 0 0"
    using small
    by (rule C [of "Vec3 (1 / 2) 0 0", THEN conjunct2, THEN conjunct2, THEN conjunct2, rule_format])
  note N = T [THEN conjunct1, rule_format, OF i]
  have n1: "dev_vel1 (stepSimulationNaive (1 / 5) (simOf fastPos fastVel)) ! 0 = Vec3 1 0 0"
    using N [THEN conjunct1] unfolding simOf_fields n0 fast_raw c3 .
  from scattered_step_searched [OF fast_allocated fast_scene sorts_stable, of "1 / 5"]
  obtain s1 where r1: "stepSimulationScatteredGrid stable_sorter (1 / 5) (simOf fastPos fastVel) = Inr s1"
    by blast
  have g1: "glm_length (dev_vel1 s1 ! 0) \<le> maxSpeed"
    by (rule T [THEN conjunct2, THEN conjunct1, rule_format, OF r1 i, THEN conjunct2])
  from coherent_step_searched [OF fast_allocated fast_scene sorts_stable, of "1 / 5"]
  obtain s2 where r2: "stepSimulationCoherentGrid stable_sorter (1 / 5) (simOf fastPos fastVel) = Inr s2"
    by blast
  have g2: "glm_length (dev_vel1 s2 ! 0) \<le> maxSpeed"
    by (rule T [THEN conjunct2, THEN conjunct2, THEN conjunct1, rule_format, OF r2 i, THEN conjunct2])
  have e1: "\<exists>s'. stepSimulationScatteredGrid stable_sorter (1 / 5) (simOf fastPos fastVel) = Inr s' \<and>
         glm_length (dev_vel1 s' ! 0) \<le> maxSpeed"
    using r1 g1 by (intro exI [of _ s1] conjI)
  have e2: "\<exists>s'. stepSimulationCoherentGrid stable_sorter (1 / 5) (simOf fastPos fastVel) = Inr s' \<and>
         glm_length (dev_vel1 s' ! 0) \<le> maxSpeed"
    using r2 g2 by (intro exI [of _ s2] conjI)
  from fast_allocated fast_raw n1 N [THEN conjunct2] e1 e2 c3 c3l c12
  show ?thesis by (intro conjI)
qed

lemma sorted_keys_of_positions:
  assumes "length pos = N" and "\<And>j. j < length p \<Longrightarrow> p ! j < N"
  shows "map (\<lambda>i. map g pos ! i) p = map g (map (\<lambda>i. pos ! i) p)"
  using assms by (intro nth_equalityI) simp_all

text \<open>
  Claim C3. The coherent step, up to its velocity kernel, returns for positions inside the
  scene. The index array it has sorted is a permutation of \<open>0, \<dots>, N - 1\<close>, and slot \<open>i\<close> of
  the reordered position array and slot \<open>i\<close> of the reordered velocity array both hold the
  entry that the boid \<^verbatim>\<open>dev_particleArrayIndices[i]\<close> had before. The two key copies end up
  equal, sorted, and are the grid indices of the reordered positions. The library sort is
  taken to return a sorted permutation that depends on the key array alone.
\<close>

theorem reorder_one_permutation:
  assumes al: "allocated s" and scene: "list_all inScene (dev_pos s)"
    and srt: "sorts srt (dev_particleGridIndices (resetAndLabel s))"
  shows "\<exists>s'. coherentReorder srt s = Inr s' \<and>
           dev_particleArrayIndices s' = map int (srt (dev_particleGridIndices (resetAndLabel s))) \<and>
           mset (dev_particleArrayIndices s') = mset (map int [0..<numObjects s]) \<and>
           dev_pos s' = map (\<lambda>k. dev_pos s ! nat k) (dev_particleArrayIndices s') \<and>
           dev_vel1 s' = map (\<lambda>k. dev_vel1 s ! nat k) (dev_particleArrayIndices s') \<and>
           dev_posGridIndices s'
             = map (\<lambda>q. gridIndex1D q gridMinimum gridInverseCellWidth gridSideCount) (dev_pos s') \<and>
           dev_velGridIndices s' = dev_posGridIndices s' \<and>
           sorted (dev_posGridIndices s')"
proof -
  let ?N = "numObjects s"
  let ?keys = "dev_particleGridIndices (resetAndLabel s)"
  let ?p = "srt ?keys"
  from al have lenp: "length (dev_pos s) = ?N" by (simp add: allocated_def)
  note ra = resetAndLabel_allocated [OF al]
  have lenk: "length ?keys = ?N" using lenp by (simp add: ra(4))
  have perm: "mset ?p = mset [0..<?N]" using srt by (simp add: sorts_def lenk)
  have sorted: "sorted (map (\<lambda>i. ?keys ! i) ?p)" using srt by (simp add: sorts_def)
  note pf = perm_facts [OF perm]
  obtain s' where run: "coherentReorder srt s = Inr s'"
    by (rule coherentReorder_run [OF al scene srt])
  note fs = coherentReorder_fields_of [OF al perm run]
  have a: "dev_particleArrayIndices s' = map int ?p" by (rule fs(3))
  have m: "mset (dev_particleArrayIndices s') = mset (map int [0..<?N])"
    unfolding a mset_map perm ..
  have q: "dev_pos s' = map (\<lambda>k. dev_pos s ! nat k) (dev_particleArrayIndices s')"
    unfolding a fs(7) by (simp add: o_def)
  have v: "dev_vel1 s' = map (\<lambda>k. dev_vel1 s ! nat k) (dev_particleArrayIndices s')"
    unfolding a fs(8) by (simp add: o_def)
  have k: "dev_posGridIndices s'
           = map (\<lambda>q. gridIndex1D q gridMinimum gridInverseCellWidth gridSideCount) (dev_pos s')"
  proof -
    have b: "?p ! j < ?N" if "j < length ?p" for j using that pf(1) pf(3) by simp
    have "map (\<lambda>i. map (\<lambda>q. gridIndex1D q gridMinimum gridInverseCellWidth gridSideCount)
                       (dev_pos s) ! i) ?p
          = map (\<lambda>q. gridIndex1D q gridMinimum gridInverseCellWidth gridSideCount)
              (map (\<lambda>i. dev_pos s ! i) ?p)"
      using lenp b by (rule sorted_keys_of_positions)
    then have "map (\<lambda>i. ?keys ! i) ?p
          = map (\<lambda>q. gridIndex1D q gridMinimum gridInverseCellWidth gridSideCount)
              (map (\<lambda>i. dev_pos s ! i) ?p)"
      by (simp only: ra(4))
    then show ?thesis unfolding fs(5) fs(4) fs(7) .
  qed
  have e: "dev_velGridIndices s' = dev_posGridIndices s'" unfolding fs(5) fs(6) ..
  have so: "sorted (dev_posGridIndices s')" unfolding fs(5) fs(4) by (rule sorted)
  from run a m q v k e so show ?thesis by (intro exI [of _ s'] conjI)
qed

text \<open>
  The two boids whose cells are out of order are exchanged, each with its own velocity.
\<close>

theorem reorder_one_permutation_witness:
  "\<exists>s'. coherentReorder stable_sorter (simOf crossedPos markedVel) = Inr s' \<and>
        dev_particleArrayIndices s' = [1, 0] \<and>
        dev_pos s' = [Vec3 (- 1) 0 0, Vec3 1 0 0] \<and>
        dev_vel1 s' = [Vec3 0 0 (1 / 10), Vec3 0 (1 / 10) 0] \<and>
        dev_posGridIndices s' = [5576, 5577] \<and> dev_velGridIndices s' = [5576, 5577]"
proof -
  have l: "length markedVel = 2" by (simp add: markedVel_def)
  have sc: "list_all inScene (dev_pos (simOf crossedPos markedVel))"
    by (simp add: crossedPos_def inScene_def scene_scale_def)
  from reorder_one_permutation [OF crossed_allocated_any [OF l] sc sorts_stable]
  obtain s' where "coherentReorder stable_sorter (simOf crossedPos markedVel) = Inr s'"
    and "dev_particleArrayIndices s' = [1, 0]"
    and "dev_pos s' = map (\<lambda>k. crossedPos ! nat k) (dev_particleArrayIndices s')"
    and "dev_vel1 s' = map (\<lambda>k. markedVel ! nat k) (dev_particleArrayIndices s')"
    and "dev_posGridIndices s'
         = map (\<lambda>q. gridIndex1D q gridMinimum gridInverseCellWidth gridSideCount) (dev_pos s')"
    and "dev_velGridIndices s' = dev_posGridIndices s'"
    unfolding crossed_keys_any [OF l] crossed_perm by auto
  then show ?thesis
    by (intro exI [of _ s'] conjI)
       (simp_all add: crossedPos_def markedVel_def gridIndex1D_def gridIndex3Dto1D_def
          grid_values scaled_values Let_def)
qed

lemma crossed_scattered:
  "\<exists>s'. stepSimulationScatteredGrid stable_sorter dt (simOf crossedPos crossedVel) = Inr s' \<and>
        dev_vel1 s' = [Vec3 (9 / 50) 0 0, Vec3 (- (9 / 50)) 0 0]"
proof -
  from scattered_step [OF crossed_allocated crossed_scene sorts_stable crossed_covered, of dt]
  obtain s' where "stepSimulationScatteredGrid stable_sorter dt (simOf crossedPos crossedVel) = Inr s'"
    and "dev_vel1 s' = [Vec3 (9 / 50) 0 0, Vec3 (- (9 / 50)) 0 0]"
    unfolding crossed_naive by auto
  then show ?thesis by (intro exI [of _ s'] conjI)
qed






end
